theory Spec2Isabelle
  imports Complex_Main "HOL-Library.AList" "HOL-Library.Char_ord" "HOL-Library.List_Lexorder"
begin

section \<open>Data model (package model, as used by package analysis)\<close>

text \<open>
  Package \<^verbatim>\<open>model\<close> declares \<^verbatim>\<open>Issue\<close>, \<^verbatim>\<open>Dependency\<close>, \<^verbatim>\<open>Status\<close> and
  \<^verbatim>\<open>DependencyType\<close>. \<^verbatim>\<open>Status\<close> and \<^verbatim>\<open>DependencyType\<close> are Go string types, so any
  string is a value of them. \<^verbatim>\<open>Issue.Dependencies\<close> has type \<^verbatim>\<open>[]*Dependency\<close>: an entry
  is a pointer and may be nil, which is \<open>None\<close> here. \<^verbatim>\<open>time.Time\<close> is the number of
  nanoseconds since the zero instant (year 1), so \<^verbatim>\<open>IsZero\<close> is \<open>t = 0\<close>.
\<close>

type_synonym Status = string
type_synonym DependencyType = string
type_synonym Time = int

text \<open>Modelled from the spec: the constant \<^verbatim>\<open>model.StatusClosed\<close> (status \<^verbatim>\<open>closed\<close>).\<close>
definition StatusClosed :: Status where
  "StatusClosed = ''closed''"

text \<open>Modelled from the spec: the constant \<^verbatim>\<open>model.StatusOpen\<close> (status \<^verbatim>\<open>open\<close>).\<close>
definition StatusOpen :: Status where
  "StatusOpen = ''open''"

text \<open>Modelled from the spec: the constant \<^verbatim>\<open>model.DepBlocks\<close> (kind \<^verbatim>\<open>blocks\<close>).\<close>
definition DepBlocks :: DependencyType where
  "DepBlocks = ''blocks''"

text \<open>Modelled from the spec: the constant \<^verbatim>\<open>model.DepRelated\<close> (kind \<^verbatim>\<open>related\<close>).\<close>
definition DepRelated :: DependencyType where
  "DepRelated = ''related''"

text \<open>Modelled from the spec: the constant \<^verbatim>\<open>model.DepParentChild\<close> (kind \<^verbatim>\<open>parent_child\<close>).\<close>
definition DepParentChild :: DependencyType where
  "DepParentChild = ''parent_child''"

record Dependency =
  DependsOnID :: string
  Type :: DependencyType

record Issue =
  ID :: string
  Title :: string
  Status :: Status
  Priority :: int
  UpdatedAt :: Time
  Dependencies :: "Dependency option list"

text \<open>Run-time panics of the Go code, as values.\<close>

datatype error =
  NilPointerDereference
  | SelfEdgePanic
  | SliceBoundsOutOfRange

section \<open>The graph library (gonum \<^verbatim>\<open>simple.DirectedGraph\<close>)\<close>

text \<open>
  The analyzer stores its graph in gonum's \<^verbatim>\<open>simple.DirectedGraph\<close>: a set of nodes with
  int64 ids and a set of directed edges kept in two maps keyed by node id, so setting an
  edge twice leaves one edge. \<^verbatim>\<open>NewNode\<close> on a graph from which no node was removed
  returns the id following the largest one, starting at 0. \<^verbatim>\<open>SetEdge\<close> is documented to
  panic when both ends have the same id (a simple graph has no self-loop). Ids stay far
  below \<open>2^63\<close> (one per issue in memory), so they are natural numbers here.
\<close>

record Graph =
  nodes :: "nat list"
  edges :: "(nat \<times> nat) list"

definition NewDirectedGraph :: Graph where
  "NewDirectedGraph = \<lparr>nodes = [], edges = []\<rparr>"

definition NewNode :: "Graph \<Rightarrow> nat" where
  "NewNode g = length (nodes g)"

definition AddNode :: "Graph \<Rightarrow> nat \<Rightarrow> Graph" where
  "AddNode g n = g\<lparr>nodes := nodes g @ [n]\<rparr>"

definition SetEdge :: "Graph \<Rightarrow> nat \<Rightarrow> nat \<Rightarrow> error + Graph" where
  "SetEdge g u v =
     (if u = v then Inl SelfEdgePanic
      else if (u, v) \<in> set (edges g) then Inr g
      else Inr (g\<lparr>edges := edges g @ [(u, v)]\<rparr>))"

text \<open>\<^verbatim>\<open>g.To(id)\<close>: the nodes with an edge into \<open>id\<close>; \<^verbatim>\<open>g.From(id)\<close>: the nodes \<open>id\<close> has an
  edge to. The iterators' order is unspecified; the code only counts them or folds a
  maximum over them.\<close>

definition To :: "Graph \<Rightarrow> nat \<Rightarrow> nat list" where
  "To g n = map fst (filter (\<lambda>e. snd e = n) (edges g))"

definition From :: "Graph \<Rightarrow> nat \<Rightarrow> nat list" where
  "From g n = map snd (filter (\<lambda>e. fst e = n) (edges g))"

definition EdgesLen :: "Graph \<Rightarrow> nat" where
  "EdgesLen g = length (edges g)"

section \<open>The analyzer (graph.go)\<close>

text \<open>
  The Go maps \<^verbatim>\<open>idToNode\<close> and \<^verbatim>\<open>nodeToID\<close> are only looked up; they are partial
  functions. \<^verbatim>\<open>issueMap\<close> and the metric maps of the statistics are also measured
  (\<^verbatim>\<open>len\<close>) and ranged over; they are association lists with distinct keys, written with
  \<^const>\<open>AList.update\<close> and read with \<^const>\<open>map_of\<close>. Where the order of a \<^verbatim>\<open>range\<close>
  loop over a map shows in the result, the order is a parameter of the model.
\<close>

record Analyzer =
  g :: Graph
  idToNode :: "string \<rightharpoonup> nat"
  nodeToID :: "nat \<rightharpoonup> string"
  issueMap :: "(string \<times> Issue) list"

text \<open>\<^verbatim>\<open>isBlockingDep\<close>: the empty kind counts as \<^verbatim>\<open>blocks\<close>.\<close>

definition isBlockingDep :: "DependencyType \<Rightarrow> bool" where
  "isBlockingDep depType = (if depType = [] then True else depType = DepBlocks)"

text \<open>\<^verbatim>\<open>NewAnalyzer\<close>, first loop: one node per issue, in input order.\<close>

fun addNodes :: "Issue list \<Rightarrow> Analyzer \<Rightarrow> Analyzer" where
  "addNodes [] a = a"
| "addNodes (issue # rest) a =
     (let n = NewNode (g a) in
      addNodes rest
        \<lparr>g = AddNode (g a) n,
         idToNode = (idToNode a)(ID issue \<mapsto> n),
         nodeToID = (nodeToID a)(n \<mapsto> ID issue),
         issueMap = AList.update (ID issue) issue (issueMap a)\<rparr>)"

text \<open>\<^verbatim>\<open>NewAnalyzer\<close>, second loop: the body for one dependency entry of the issue at
  node \<open>u\<close>, then the loops over the entries and over the issues.\<close>

definition addDep :: "(string \<rightharpoonup> nat) \<Rightarrow> nat \<Rightarrow> Dependency option \<Rightarrow> Graph \<Rightarrow> error + Graph" where
  "addDep ids u dep gr =
     (case dep of
        None \<Rightarrow> Inr gr
      | Some d \<Rightarrow>
          if \<not> isBlockingDep (Type d) then Inr gr
          else (case ids (DependsOnID d) of
                  None \<Rightarrow> Inr gr
                | Some v \<Rightarrow> SetEdge gr u v))"

fun addDeps :: "(string \<rightharpoonup> nat) \<Rightarrow> nat \<Rightarrow> Dependency option list \<Rightarrow> Graph \<Rightarrow> error + Graph" where
  "addDeps ids u [] gr = Inr gr"
| "addDeps ids u (dep # deps) gr =
     (case addDep ids u dep gr of
        Inl e \<Rightarrow> Inl e
      | Inr gr' \<Rightarrow> addDeps ids u deps gr')"

fun addEdges :: "(string \<rightharpoonup> nat) \<Rightarrow> Issue list \<Rightarrow> Graph \<Rightarrow> error + Graph" where
  "addEdges ids [] gr = Inr gr"
| "addEdges ids (issue # rest) gr =
     (case ids (ID issue) of
        None \<Rightarrow> addEdges ids rest gr
      | Some u \<Rightarrow>
          (case addDeps ids u (Dependencies issue) gr of
             Inl e \<Rightarrow> Inl e
           | Inr gr' \<Rightarrow> addEdges ids rest gr'))"

definition emptyAnalyzer :: Analyzer where
  "emptyAnalyzer =
     \<lparr>g = NewDirectedGraph, idToNode = Map.empty, nodeToID = Map.empty, issueMap = []\<rparr>"

definition NewAnalyzer :: "Issue list \<Rightarrow> error + Analyzer" where
  "NewAnalyzer issues =
     (let a = addNodes issues emptyAnalyzer in
      case addEdges (idToNode a) issues (g a) of
        Inl e \<Rightarrow> Inl e
      | Inr gr \<Rightarrow> Inr (a\<lparr>g := gr\<rparr>))"

subsection \<open>Blockers and the actionable set\<close>

text \<open>\<^verbatim>\<open>GetBlockers\<close> and \<^verbatim>\<open>GetOpenBlockers\<close> read \<^verbatim>\<open>dep.Type\<close> without a nil check, so a
  nil entry is a nil-pointer dereference. A Go nil slice is the empty list.\<close>

fun blockersLoop :: "(string \<rightharpoonup> Issue) \<Rightarrow> Dependency option list \<Rightarrow> string list \<Rightarrow> error + string list" where
  "blockersLoop m [] blockers = Inr blockers"
| "blockersLoop m (None # deps) blockers = Inl NilPointerDereference"
| "blockersLoop m (Some dep # deps) blockers =
     blockersLoop m deps
       (if isBlockingDep (Type dep) then
          (case m (DependsOnID dep) of
             None \<Rightarrow> blockers
           | Some blocker \<Rightarrow> blockers @ [DependsOnID dep])
        else blockers)"

definition GetBlockers :: "Analyzer \<Rightarrow> string \<Rightarrow> error + string list" where
  "GetBlockers a issueID =
     (case map_of (issueMap a) issueID of
        None \<Rightarrow> Inr []
      | Some issue \<Rightarrow> blockersLoop (map_of (issueMap a)) (Dependencies issue) [])"

fun openBlockersLoop :: "(string \<rightharpoonup> Issue) \<Rightarrow> Dependency option list \<Rightarrow> string list \<Rightarrow> error + string list" where
  "openBlockersLoop m [] openBlockers = Inr openBlockers"
| "openBlockersLoop m (None # deps) openBlockers = Inl NilPointerDereference"
| "openBlockersLoop m (Some dep # deps) openBlockers =
     openBlockersLoop m deps
       (if isBlockingDep (Type dep) then
          (case m (DependsOnID dep) of
             None \<Rightarrow> openBlockers
           | Some blocker \<Rightarrow>
               if Status blocker \<noteq> StatusClosed then openBlockers @ [DependsOnID dep]
               else openBlockers)
        else openBlockers)"

definition GetOpenBlockers :: "Analyzer \<Rightarrow> string \<Rightarrow> error + string list" where
  "GetOpenBlockers a issueID =
     (case map_of (issueMap a) issueID of
        None \<Rightarrow> Inr []
      | Some issue \<Rightarrow> openBlockersLoop (map_of (issueMap a)) (Dependencies issue) [])"

text \<open>The inner loop of \<^verbatim>\<open>GetActionableIssues\<close>: the value of \<^verbatim>\<open>isBlocked\<close> when the loop
  over the dependencies ends (it breaks at the first open blocker).\<close>

fun isBlockedLoop :: "(string \<rightharpoonup> Issue) \<Rightarrow> Dependency option list \<Rightarrow> error + bool" where
  "isBlockedLoop m [] = Inr False"
| "isBlockedLoop m (None # deps) = Inl NilPointerDereference"
| "isBlockedLoop m (Some dep # deps) =
     (if \<not> isBlockingDep (Type dep) then isBlockedLoop m deps
      else (case m (DependsOnID dep) of
              None \<Rightarrow> isBlockedLoop m deps
            | Some blocker \<Rightarrow>
                if Status blocker \<noteq> StatusClosed then Inr True
                else isBlockedLoop m deps))"

text \<open>The outer loop ranges over the Go map \<^verbatim>\<open>issueMap\<close>, whose iteration order is
  unspecified: \<open>ks\<close> is the order in which the keys are visited.\<close>

fun actionableLoop :: "(string \<rightharpoonup> Issue) \<Rightarrow> string list \<Rightarrow> Issue list \<Rightarrow> error + Issue list" where
  "actionableLoop m [] actionable = Inr actionable"
| "actionableLoop m (k # ks) actionable =
     (case m k of
        None \<Rightarrow> actionableLoop m ks actionable
      | Some issue \<Rightarrow>
          if Status issue = StatusClosed then actionableLoop m ks actionable
          else (case isBlockedLoop m (Dependencies issue) of
                  Inl e \<Rightarrow> Inl e
                | Inr isBlocked \<Rightarrow>
                    actionableLoop m ks
                      (if \<not> isBlocked then actionable @ [issue] else actionable)))"

definition GetActionableIssues :: "Analyzer \<Rightarrow> string list \<Rightarrow> error + Issue list" where
  "GetActionableIssues a ks = actionableLoop (map_of (issueMap a)) ks []"

section \<open>Statistics, configuration and the library calls of one analysis\<close>

text \<open>
  \<^verbatim>\<open>AnalysisConfig\<close> is declared in a file that is not among the sources; the record has
  the fields \<^verbatim>\<open>graph.go\<close> reads. The timeouts are durations; which case of a
  \<^verbatim>\<open>select\<close> fires (the result or the timer) is decided by the run, so it is part of
  \<open>Library\<close> below. Modelled from the spec: the two betweenness modes.
\<close>

datatype BetweennessMode = BetweennessExact | BetweennessApproximate

record AnalysisConfig =
  ComputePageRank :: bool
  ComputeBetweenness :: bool
  BetweennessMode :: BetweennessMode
  BetweennessSampleSize :: int
  BetweennessIsApproximate :: bool
  ComputeEigenvector :: bool
  ComputeHITS :: bool
  ComputeCriticalPath :: bool
  ComputeCycles :: bool
  MaxCyclesToStore :: int

record BetweennessResult =
  Scores :: "(nat \<times> real) list"
  Mode :: BetweennessMode

text \<open>The outcome of a \<^verbatim>\<open>select\<close> between a result channel and \<^verbatim>\<open>time.After\<close>.\<close>

datatype 'a outcome = Done 'a | TimedOut

text \<open>
  What the library returns during one analysis. The gonum routines walk Go maps, so
  their node order differs from run to run; each call has a result of its own here, and
  the theorems assume of a result only what the routine's documentation promises
  (\<open>sccs_ok\<close> and \<open>cycles_ok\<close> below). A map returned by the library is the list of its
  entries in the order the \<^verbatim>\<open>range\<close> loop visits them. A floating-point number is
  the real number it denotes. \<^verbatim>\<open>computeEigenvector\<close> (a power iteration with square
  roots) is taken as a result too.
\<close>

record Library =
  nodesOrder :: "nat list"                  \<comment> \<open>\<^verbatim>\<open>g.Nodes()\<close> in \<^verbatim>\<open>computePhase1\<close>\<close>
  sortPhase1 :: "nat list list"             \<comment> \<open>\<^verbatim>\<open>TarjanSCC\<close> inside \<^verbatim>\<open>topo.Sort\<close>, phase 1\<close>
  pageRankRun :: "(nat \<times> real) list outcome"
  exactBetweenness :: "(nat \<times> real) list"
  approxBetweenness :: BetweennessResult
  betweennessTimedOut :: bool
  eigenvectorRun :: "(nat \<times> real) list"
  hitsRun :: "(nat \<times> real \<times> real) list outcome"
  sortPhase2 :: "nat list list"             \<comment> \<open>\<^verbatim>\<open>TarjanSCC\<close> inside \<^verbatim>\<open>topo.Sort\<close>, phase 2\<close>
  sccsCycles :: "nat list list"             \<comment> \<open>\<^verbatim>\<open>topo.TarjanSCC\<close> before the enumeration\<close>
  cyclesRun :: "nat list list outcome"      \<comment> \<open>\<^verbatim>\<open>topo.DirectedCyclesIn\<close>\<close>

record GraphStats =
  OutDegree :: "(string \<times> int) list"
  InDegree :: "(string \<times> int) list"
  TopologicalOrder :: "string list"
  Density :: real
  NodeCount :: nat
  EdgeCount :: nat
  Config :: AnalysisConfig
  phase2Ready :: bool
  pageRank :: "(string \<times> real) list"
  betweenness :: "(string \<times> real) list"
  eigenvector :: "(string \<times> real) list"
  hubs :: "(string \<times> real) list"
  authorities :: "(string \<times> real) list"
  criticalPathScore :: "(string \<times> real) list"
  cycles :: "string list list"

text \<open>\<^verbatim>\<open>a.nodeToID[n]\<close>: a Go map lookup gives the zero value, the empty string, for a
  missing key.\<close>

definition lookupID :: "Analyzer \<Rightarrow> nat \<Rightarrow> string" where
  "lookupID a n = (case nodeToID a n of None \<Rightarrow> [] | Some s \<Rightarrow> s)"

text \<open>\<^verbatim>\<open>topo.Sort\<close>: it orders the strongly connected components found by
  \<^verbatim>\<open>TarjanSCC\<close>; a component of a length other than 1 makes it return an error, and
  without one the nodes come in the reverse of the components' order.\<close>

definition Sort :: "nat list list \<Rightarrow> nat list option" where
  "Sort sccs = (if list_all (\<lambda>s. length s = 1) sccs then Some (rev (concat sccs)) else None)"

subsection \<open>Phase 1\<close>

fun degreeLoop :: "Analyzer \<Rightarrow> nat list \<Rightarrow> GraphStats \<Rightarrow> GraphStats" where
  "degreeLoop a [] stats = stats"
| "degreeLoop a (n # ns) stats =
     (let ident = lookupID a n in
      degreeLoop a ns
        (stats\<lparr>InDegree := AList.update ident (int (length (To (g a) n))) (InDegree stats),
               OutDegree := AList.update ident (int (length (From (g a) n))) (OutDegree stats)\<rparr>))"

definition computePhase1 :: "Analyzer \<Rightarrow> Library \<Rightarrow> GraphStats \<Rightarrow> GraphStats" where
  "computePhase1 a lib stats =
     (let stats1 = degreeLoop a (nodesOrder lib) stats;
          stats2 = (case Sort (sortPhase1 lib) of
                      None \<Rightarrow> stats1
                    | Some sortedNodes \<Rightarrow>
                        stats1\<lparr>TopologicalOrder :=
                                 TopologicalOrder stats1 @ map (lookupID a) (rev sortedNodes)\<rparr>);
          n = real (length (issueMap a));
          e = real (EdgesLen (g a))
      in if n > 1 then stats2\<lparr>Density := e / (n * (n - 1))\<rparr> else stats2)"

subsection \<open>Phase 2\<close>

text \<open>Copying a library map into a map keyed by issue id.\<close>

definition byIssueID :: "Analyzer \<Rightarrow> (nat \<times> real) list \<Rightarrow> (string \<times> real) list" where
  "byIssueID a entries = foldl (\<lambda>m (n, score). AList.update (lookupID a n) score m) [] entries"

text \<open>The PageRank section. The uniform value is computed only on a non-empty issue map:
  \<^verbatim>\<open>AnalyzeAsyncWithConfig\<close> returns before phase 2 when there is no issue.\<close>

definition pageRankSection :: "Analyzer \<Rightarrow> AnalysisConfig \<Rightarrow> Library \<Rightarrow> (string \<times> real) list" where
  "pageRankSection a config lib =
     (if ComputePageRank config then
        (case pageRankRun lib of
           Done pr \<Rightarrow> byIssueID a pr
         | TimedOut \<Rightarrow>
             (let uniform = 1 / real (length (issueMap a)) in
              foldl (\<lambda>m ident. AList.update ident uniform m) [] (map fst (issueMap a))))
      else [])"

definition betweennessRun :: "AnalysisConfig \<Rightarrow> Library \<Rightarrow> BetweennessResult" where
  "betweennessRun config lib =
     (if BetweennessMode config = BetweennessApproximate \<and> BetweennessSampleSize config > 0
      then approxBetweenness lib
      else \<lparr>Scores = exactBetweenness lib, Mode = BetweennessExact\<rparr>)"

definition betweennessSection :: "Analyzer \<Rightarrow> AnalysisConfig \<Rightarrow> Library \<Rightarrow> (string \<times> real) list \<times> bool" where
  "betweennessSection a config lib =
     (if ComputeBetweenness config \<and> \<not> betweennessTimedOut lib then
        (let result = betweennessRun config lib in
         (byIssueID a (Scores result), Mode result = BetweennessApproximate))
      else ([], False))"

definition eigenvectorSection :: "Analyzer \<Rightarrow> AnalysisConfig \<Rightarrow> Library \<Rightarrow> (string \<times> real) list" where
  "eigenvectorSection a config lib =
     (if ComputeEigenvector config then byIssueID a (eigenvectorRun lib) else [])"

definition hitsSection :: "Analyzer \<Rightarrow> AnalysisConfig \<Rightarrow> Library \<Rightarrow> (string \<times> real) list \<times> (string \<times> real) list" where
  "hitsSection a config lib =
     (if ComputeHITS config \<and> EdgesLen (g a) > 0 then
        (case hitsRun lib of
           Done hubAuth \<Rightarrow>
             (byIssueID a (map (\<lambda>(n, hub, auth). (n, hub)) hubAuth),
              byIssueID a (map (\<lambda>(n, hub, auth). (n, auth)) hubAuth))
         | TimedOut \<Rightarrow> ([], []))
      else ([], []))"

text \<open>\<^verbatim>\<open>computeHeights\<close>: the inner loop folds the maximum of the heights already stored
  for the nodes with an edge into \<open>nid\<close>.\<close>

definition maxParentHeight :: "(nat \<rightharpoonup> real) \<Rightarrow> nat list \<Rightarrow> real" where
  "maxParentHeight heights ps =
     foldl (\<lambda>mx p. case heights p of None \<Rightarrow> mx | Some h \<Rightarrow> if h > mx then h else mx) 0 ps"

fun heightsLoop :: "Analyzer \<Rightarrow> nat list \<Rightarrow> (nat \<rightharpoonup> real) \<Rightarrow> (string \<times> real) list \<Rightarrow> (string \<times> real) list" where
  "heightsLoop a [] heights impactScores = impactScores"
| "heightsLoop a (nid # rest) heights impactScores =
     (let h = 1 + maxParentHeight heights (To (g a) nid) in
      heightsLoop a rest (heights(nid \<mapsto> h)) (AList.update (lookupID a nid) h impactScores))"

definition computeHeights :: "Analyzer \<Rightarrow> nat list \<Rightarrow> (string \<times> real) list" where
  "computeHeights a sortedNodes = heightsLoop a sortedNodes Map.empty []"

definition criticalPathSection :: "Analyzer \<Rightarrow> AnalysisConfig \<Rightarrow> Library \<Rightarrow> (string \<times> real) list" where
  "criticalPathSection a config lib =
     (if ComputeCriticalPath config then
        (case Sort (sortPhase2 lib) of
           None \<Rightarrow> []
         | Some sortedNodes \<Rightarrow> computeHeights a sortedNodes)
      else [])"

text \<open>The cycles section. \<^verbatim>\<open>cyclesToProcess[:maxCycles]\<close> panics for a negative
  \<^verbatim>\<open>maxCycles\<close>.\<close>

definition cyclesSection :: "Analyzer \<Rightarrow> AnalysisConfig \<Rightarrow> Library \<Rightarrow> error + string list list" where
  "cyclesSection a config lib =
     (if ComputeCycles config then
        (let maxCycles = (if MaxCyclesToStore config = 0 then 100 else MaxCyclesToStore config);
             hasCycles = list_ex (\<lambda>scc. length scc > 1) (sccsCycles lib)
         in if hasCycles then
              (case cyclesRun lib of
                 Done found \<Rightarrow>
                   if int (length found) > maxCycles then
                     (if maxCycles < 0 then Inl SliceBoundsOutOfRange
                      else Inr (map (map (lookupID a)) (take (nat maxCycles) found)
                                @ [[''...'', ''CYCLES_TRUNCATED'']]))
                   else Inr (map (map (lookupID a)) found)
               | TimedOut \<Rightarrow> Inr [[''CYCLE_DETECTION_TIMEOUT'']])
            else Inr [])
      else Inr [])"

definition computePhase2 :: "Analyzer \<Rightarrow> AnalysisConfig \<Rightarrow> Library \<Rightarrow> GraphStats \<Rightarrow> error + GraphStats" where
  "computePhase2 a config lib stats =
     (let localPageRank = pageRankSection a config lib;
          (localBetweenness, approx) = betweennessSection a config lib;
          localEigenvector = eigenvectorSection a config lib;
          (localHubs, localAuthorities) = hitsSection a config lib;
          localCriticalPath = criticalPathSection a config lib
      in case cyclesSection a config lib of
           Inl e \<Rightarrow> Inl e
         | Inr localCycles \<Rightarrow>
             Inr (stats\<lparr>Config := (if approx then (Config stats)\<lparr>BetweennessIsApproximate := True\<rparr>
                                     else Config stats),
                        pageRank := localPageRank,
                        betweenness := localBetweenness,
                        eigenvector := localEigenvector,
                        hubs := localHubs,
                        authorities := localAuthorities,
                        criticalPathScore := localCriticalPath,
                        cycles := localCycles,
                        phase2Ready := True\<rparr>))"

text \<open>\<^verbatim>\<open>AnalyzeAsyncWithConfig\<close> followed by \<^verbatim>\<open>WaitForPhase2\<close>: the statistics once the
  background phase has published.\<close>

definition newGraphStats :: "Analyzer \<Rightarrow> AnalysisConfig \<Rightarrow> GraphStats" where
  "newGraphStats a config =
     \<lparr>OutDegree = [], InDegree = [], TopologicalOrder = [], Density = 0,
      NodeCount = length (issueMap a), EdgeCount = EdgesLen (g a), Config = config,
      phase2Ready = False, pageRank = [], betweenness = [], eigenvector = [], hubs = [],
      authorities = [], criticalPathScore = [], cycles = []\<rparr>"

definition AnalyzeWithConfig :: "Analyzer \<Rightarrow> AnalysisConfig \<Rightarrow> Library \<Rightarrow> error + GraphStats" where
  "AnalyzeWithConfig a config lib =
     (let stats = newGraphStats a config in
      if NodeCount stats = 0 then Inr (stats\<lparr>phase2Ready := True\<rparr>)
      else computePhase2 a config lib (computePhase1 a lib stats))"

section \<open>Impact scores\<close>

subsection \<open>float64\<close>

text \<open>
  A \<^verbatim>\<open>float64\<close> that is a number is modelled by the real it denotes (the two zeros are one
  value: the comparisons of this code do not tell them apart). An arithmetic operation
  returns the exact result rounded to the nearest \<^verbatim>\<open>float64\<close>, a tie going to the even
  significand, and each operation is rounded on its own, as in the code the Go compiler
  emits for amd64 (no fused multiply-add). \<open>binaryExp\<close> finds the binary exponent of a
  positive number, not below that of the smallest normal number; \<open>ulp\<close> is the distance
  between the two neighbours of \<open>x\<close> that have 53 bits. Infinities and NaN are not
  modelled: every division of this code is by a constant or guarded by a test for zero,
  its operands are durations, small integers and the scores of the graph algorithms,
  which are not negative, and every ratio lies between 0 and 1.
\<close>

type_synonym float64 = real

fun binaryExp :: "nat \<Rightarrow> real \<Rightarrow> int \<Rightarrow> int" where
  "binaryExp fuel x e =
     (if fuel = 0 then e
      else if 2 \<le> x then binaryExp (fuel - 1) (x / 2) (e + 1)
      else if x < 1 \<and> - 1022 < e then binaryExp (fuel - 1) (x * 2) (e - 1)
      else e)"

declare binaryExp.simps [simp del]

definition ulp :: "real \<Rightarrow> real" where
  "ulp x =
     (let e = binaryExp 2100 \<bar>x\<bar> 0 - 52 in if 0 \<le> e then 2 ^ nat e else 1 / 2 ^ nat (- e))"

definition roundEven :: "real \<Rightarrow> int" where
  "roundEven y =
     (let f = \<lfloor>y\<rfloor>; d = y - of_int f
      in if d < 1 / 2 then f else if 1 / 2 < d then f + 1 else if even f then f else f + 1)"

definition round64 :: "real \<Rightarrow> float64" where
  "round64 x = (if x = 0 then 0 else of_int (roundEven (x / ulp x)) * ulp x)"

definition fadd :: "float64 \<Rightarrow> float64 \<Rightarrow> float64" where
  "fadd x y = round64 (x + y)"

definition fmul :: "float64 \<Rightarrow> float64 \<Rightarrow> float64" where
  "fmul x y = round64 (x * y)"

definition fdiv :: "float64 \<Rightarrow> float64 \<Rightarrow> float64" where
  "fdiv x y = round64 (x / y)"

text \<open>The conversion \<^verbatim>\<open>float64(i)\<close> of an integer.\<close>

definition ofInt :: "int \<Rightarrow> float64" where
  "ofInt i = round64 (of_int i)"

text \<open>Go's \<^verbatim>\<open>/\<close> and \<^verbatim>\<open>%\<close> on integers truncate toward zero.\<close>

definition truncDiv :: "int \<Rightarrow> int \<Rightarrow> int" where
  "truncDiv a b = sgn a * sgn b * (\<bar>a\<bar> div \<bar>b\<bar>)"

definition truncMod :: "int \<Rightarrow> int \<Rightarrow> int" where
  "truncMod a b = sgn a * (\<bar>a\<bar> mod \<bar>b\<bar>)"

subsection \<open>The score\<close>

text \<open>
  Three field names of \<^verbatim>\<open>ImpactScore\<close> (\<^verbatim>\<open>Title\<close>, \<^verbatim>\<open>Priority\<close>, \<^verbatim>\<open>Status\<close>) are fields of
  \<open>Issue\<close> already and carry the prefix \<open>Impact\<close>; the weighted fields of
  \<^verbatim>\<open>ScoreBreakdown\<close> carry the suffix \<open>Part\<close>, since \<^verbatim>\<open>PageRank\<close> and \<^verbatim>\<open>Betweenness\<close> are
  also accessors of the statistics.
\<close>

record ScoreBreakdown =
  PageRankPart :: float64
  BetweennessPart :: float64
  BlockerRatioPart :: float64
  StalenessPart :: float64
  PriorityBoostPart :: float64
  PageRankNorm :: float64
  BetweennessNorm :: float64
  BlockerRatioNorm :: float64
  StalenessNorm :: float64
  PriorityBoostNorm :: float64

record ImpactScore =
  IssueID :: string
  ImpactTitle :: string
  Score :: float64
  Breakdown :: ScoreBreakdown
  ImpactPriority :: int
  ImpactStatus :: string

text \<open>The weights are untyped constants; in a product with a \<^verbatim>\<open>float64\<close> each is the
  \<^verbatim>\<open>float64\<close> nearest to its decimal.\<close>

definition WeightPageRank :: float64 where "WeightPageRank = round64 (30 / 100)"
definition WeightBetweenness :: float64 where "WeightBetweenness = round64 (30 / 100)"
definition WeightBlockerRatio :: float64 where "WeightBlockerRatio = round64 (20 / 100)"
definition WeightStaleness :: float64 where "WeightStaleness = round64 (10 / 100)"
definition WeightPriorityBoost :: float64 where "WeightPriorityBoost = round64 (10 / 100)"

text \<open>\<^verbatim>\<open>now.Sub(updatedAt)\<close> is a \<^verbatim>\<open>Duration\<close>, an int64 count of nanoseconds; \<^verbatim>\<open>Sub\<close>
  returns the largest or smallest duration when the difference does not fit.
  \<^verbatim>\<open>Duration.Hours\<close> (package time) converts the whole hours and the rest apart:
  \<^verbatim>\<open>hour := d / Hour; nsec := d % Hour; return float64(hour) + float64(nsec)/(60*60*1e9)\<close>.\<close>

definition maxDuration :: int where "maxDuration = 2 ^ 63 - 1"
definition minDuration :: int where "minDuration = - (2 ^ 63)"

definition Sub :: "Time \<Rightarrow> Time \<Rightarrow> int" where
  "Sub t u =
     (let d = t - u in
      if d > maxDuration then maxDuration else if d < minDuration then minDuration else d)"

definition Hour :: int where "Hour = 3600000000000"

definition Hours :: "int \<Rightarrow> float64" where
  "Hours d =
     (let hour = truncDiv d Hour; nsec = truncMod d Hour
      in fadd (ofInt hour) (fdiv (ofInt nsec) 3600000000000))"

definition computeStaleness :: "Time \<Rightarrow> Time \<Rightarrow> float64" where
  "computeStaleness updatedAt now =
     (if updatedAt = 0 then 5 / 10
      else
        (let daysSinceUpdate = fdiv (Hours (Sub now updatedAt)) 24;
             staleness = fdiv daysSinceUpdate 30;
             staleness1 = (if staleness > 1 then 1 else staleness)
         in if staleness1 < 0 then 0 else staleness1))"

definition computePriorityBoost :: "int \<Rightarrow> float64" where
  "computePriorityBoost priority =
     (if priority = 0 then 1
      else if priority = 1 then 75 / 100
      else if priority = 2 then 5 / 10
      else if priority = 3 then 25 / 100
      else 0)"

definition normalize :: "float64 \<Rightarrow> float64 \<Rightarrow> float64" where
  "normalize v mx = (if mx = 0 then 0 else fdiv v mx)"

definition normalizeInt :: "int \<Rightarrow> int \<Rightarrow> float64" where
  "normalizeInt v mx = (if mx = 0 then 0 else fdiv (ofInt v) (ofInt mx))"

definition findMax :: "(string \<times> float64) list \<Rightarrow> float64" where
  "findMax m = foldl (\<lambda>mx (k, v). if v > mx then v else mx) 0 m"

definition findMaxInt :: "(string \<times> int) list \<Rightarrow> int" where
  "findMaxInt m = foldl (\<lambda>mx (k, v). if v > mx then v else mx) 0 m"

text \<open>\<^verbatim>\<open>m[id]\<close> on a Go map of numbers: zero for a missing key.\<close>

definition lookup0 :: "(string \<times> 'a::zero) list \<Rightarrow> string \<Rightarrow> 'a" where
  "lookup0 m k = (case map_of m k of None \<Rightarrow> 0 | Some v \<Rightarrow> v)"

text \<open>The body of the loop of \<^verbatim>\<open>ComputeImpactScoresAt\<close> for an issue that is not closed.\<close>

definition scoreIssue ::
  "GraphStats \<Rightarrow> float64 \<Rightarrow> float64 \<Rightarrow> int \<Rightarrow> Time \<Rightarrow> string \<Rightarrow> Issue \<Rightarrow> ImpactScore" where
  "scoreIssue stats maxPR maxBW maxBlockers now ident issue =
     (let prNorm = normalize (lookup0 (pageRank stats) ident) maxPR;
          bwNorm = normalize (lookup0 (betweenness stats) ident) maxBW;
          blockerNorm = normalizeInt (lookup0 (InDegree stats) ident) maxBlockers;
          stalenessNorm = computeStaleness (UpdatedAt issue) now;
          priorityNorm = computePriorityBoost (Priority issue);
          breakdown =
            \<lparr>PageRankPart = fmul prNorm WeightPageRank,
             BetweennessPart = fmul bwNorm WeightBetweenness,
             BlockerRatioPart = fmul blockerNorm WeightBlockerRatio,
             StalenessPart = fmul stalenessNorm WeightStaleness,
             PriorityBoostPart = fmul priorityNorm WeightPriorityBoost,
             PageRankNorm = prNorm,
             BetweennessNorm = bwNorm,
             BlockerRatioNorm = blockerNorm,
             StalenessNorm = stalenessNorm,
             PriorityBoostNorm = priorityNorm\<rparr>;
          score = fadd (fadd (fadd (fadd (PageRankPart breakdown) (BetweennessPart breakdown))
                                   (BlockerRatioPart breakdown))
                             (StalenessPart breakdown))
                       (PriorityBoostPart breakdown)
      in \<lparr>IssueID = ident, ImpactTitle = Title issue, Score = score, Breakdown = breakdown,
          ImpactPriority = Priority issue, ImpactStatus = Status issue\<rparr>)"

text \<open>The loop ranges over \<^verbatim>\<open>issueMap\<close>; \<open>ks\<close> is the order in which its keys are
  visited.\<close>

fun impactLoop ::
  "(string \<rightharpoonup> Issue) \<Rightarrow> (string \<Rightarrow> Issue \<Rightarrow> ImpactScore) \<Rightarrow> string list \<Rightarrow> ImpactScore list
     \<Rightarrow> ImpactScore list" where
  "impactLoop m body [] scores = scores"
| "impactLoop m body (k # ks) scores =
     (case m k of
        None \<Rightarrow> impactLoop m body ks scores
      | Some issue \<Rightarrow>
          if Status issue = StatusClosed then impactLoop m body ks scores
          else impactLoop m body ks (scores @ [body k issue]))"

text \<open>The comparison passed to \<^verbatim>\<open>sort.Slice\<close>. Go compares strings byte by byte, which
  is the lexicographic order of \<open>char list\<close>.\<close>

definition scoreLess :: "ImpactScore \<Rightarrow> ImpactScore \<Rightarrow> bool" where
  "scoreLess x y =
     (if Score x \<noteq> Score y then Score x > Score y else IssueID x < IssueID y)"

text \<open>\<^verbatim>\<open>sort.Slice\<close> belongs to the Go library; it is an insertion sort here. The ids of two
  scores differ, so \<open>scoreLess\<close> orders them strictly and every sorting algorithm
  returns the same list.\<close>

fun insertBy :: "('a \<Rightarrow> 'a \<Rightarrow> bool) \<Rightarrow> 'a \<Rightarrow> 'a list \<Rightarrow> 'a list" where
  "insertBy lt x [] = [x]"
| "insertBy lt x (y # ys) = (if lt y x then y # insertBy lt x ys else x # y # ys)"

definition sortSlice :: "('a \<Rightarrow> 'a \<Rightarrow> bool) \<Rightarrow> 'a list \<Rightarrow> 'a list" where
  "sortSlice lt xs = foldr (insertBy lt) xs []"

text \<open>\<^verbatim>\<open>a.Analyze()\<close> runs with the configuration set by \<^verbatim>\<open>SetConfig\<close> or, without one,
  with \<^verbatim>\<open>ConfigForSize\<close>'s, whose file is not among the sources: \<open>config\<close> is that
  configuration.\<close>

definition ComputeImpactScoresAt ::
  "Analyzer \<Rightarrow> Time \<Rightarrow> AnalysisConfig \<Rightarrow> Library \<Rightarrow> string list \<Rightarrow> error + ImpactScore list" where
  "ComputeImpactScoresAt a now config lib ks =
     (if length (issueMap a) = 0 then Inr []
      else
        (case AnalyzeWithConfig a config lib of
           Inl e \<Rightarrow> Inl e
         | Inr stats \<Rightarrow>
             (let maxPR = findMax (pageRank stats);
                  maxBW = findMax (betweenness stats);
                  maxBlockers = findMaxInt (InDegree stats);
                  scores = impactLoop (map_of (issueMap a))
                             (scoreIssue stats maxPR maxBW maxBlockers now) ks []
              in Inr (sortSlice scoreLess scores))))"

section \<open>The statistics in memory: snapshot accessors\<close>

text \<open>
  A Go map value and a slice are references. The store is the list of the objects
  allocated so far, a reference is an index into it, and allocation appends. A map
  object holds its entries; a \<^verbatim>\<open>[]string\<close> is nil or a reference to an array of strings;
  a \<^verbatim>\<open>[][]string\<close> is nil or a reference to an array of such slices. The phase-2 fields
  of \<^verbatim>\<open>GraphStats\<close> are such references.
\<close>

type_synonym ref = nat

datatype object =
  MapObject "(string \<times> real) list"
  | StringArray "string list"
  | SliceArray "ref option list"

type_synonym store = "object list"

record GraphStatsRefs =
  pageRankRef :: "ref option"
  betweennessRef :: "ref option"
  eigenvectorRef :: "ref option"
  hubsRef :: "ref option"
  authoritiesRef :: "ref option"
  criticalPathScoreRef :: "ref option"
  cyclesRef :: "ref option"

definition fetch :: "store \<Rightarrow> ref \<Rightarrow> object option" where
  "fetch h p = (if p < length h then Some (h ! p) else None)"

definition alloc :: "store \<Rightarrow> object \<Rightarrow> ref \<times> store" where
  "alloc h obj = (length h, h @ [obj])"

text \<open>The body shared by the six map accessors: nil for a nil field, else a new map
  filled by a loop over the entries of the field's map.\<close>

definition copyMap :: "ref option \<Rightarrow> store \<Rightarrow> ref option \<times> store" where
  "copyMap field h =
     (case field of
        None \<Rightarrow> (None, h)
      | Some p \<Rightarrow>
          (case fetch h p of
             Some (MapObject m) \<Rightarrow>
               (let cp = foldl (\<lambda>acc (k, v). AList.update k v acc) [] m;
                    (r, h') = alloc h (MapObject cp)
                in (Some r, h'))
           | _ \<Rightarrow> (None, h)))"

definition PageRank :: "GraphStatsRefs \<Rightarrow> store \<Rightarrow> ref option \<times> store" where
  "PageRank s h = copyMap (pageRankRef s) h"

definition Betweenness :: "GraphStatsRefs \<Rightarrow> store \<Rightarrow> ref option \<times> store" where
  "Betweenness s h = copyMap (betweennessRef s) h"

definition Eigenvector :: "GraphStatsRefs \<Rightarrow> store \<Rightarrow> ref option \<times> store" where
  "Eigenvector s h = copyMap (eigenvectorRef s) h"

definition Hubs :: "GraphStatsRefs \<Rightarrow> store \<Rightarrow> ref option \<times> store" where
  "Hubs s h = copyMap (hubsRef s) h"

definition Authorities :: "GraphStatsRefs \<Rightarrow> store \<Rightarrow> ref option \<times> store" where
  "Authorities s h = copyMap (authoritiesRef s) h"

definition CriticalPathScore :: "GraphStatsRefs \<Rightarrow> store \<Rightarrow> ref option \<times> store" where
  "CriticalPathScore s h = copyMap (criticalPathScoreRef s) h"

text \<open>Reading a \<^verbatim>\<open>[]string\<close>; nil reads as the empty list.\<close>

definition readStrings :: "store \<Rightarrow> ref option \<Rightarrow> string list" where
  "readStrings h c =
     (case c of
        None \<Rightarrow> []
      | Some q \<Rightarrow> (case fetch h q of Some (StringArray xs) \<Rightarrow> xs | _ \<Rightarrow> []))"

text \<open>\<^verbatim>\<open>append([]string(nil), c...)\<close>: nil when \<open>c\<close> has no element, else a new array.\<close>

definition appendToNil :: "store \<Rightarrow> ref option \<Rightarrow> ref option \<times> store" where
  "appendToNil h c =
     (let xs = readStrings h c in
      if xs = [] then (None, h)
      else (let (q, h') = alloc h (StringArray xs) in (Some q, h')))"

text \<open>\<^verbatim>\<open>cp[i] = e\<close> on the array at \<open>r\<close>.\<close>

definition setElem :: "store \<Rightarrow> ref \<Rightarrow> nat \<Rightarrow> ref option \<Rightarrow> store" where
  "setElem h r i e =
     (case fetch h r of
        Some (SliceArray xs) \<Rightarrow> h[r := SliceArray (xs[i := e])]
      | _ \<Rightarrow> h)"

fun cyclesLoop :: "ref \<Rightarrow> nat \<Rightarrow> ref option list \<Rightarrow> store \<Rightarrow> store" where
  "cyclesLoop r i [] h = h"
| "cyclesLoop r i (c # cs) h =
     (let (e, h1) = appendToNil h c in
      cyclesLoop r (Suc i) cs (setElem h1 r i e))"

definition Cycles :: "GraphStatsRefs \<Rightarrow> store \<Rightarrow> ref option \<times> store" where
  "Cycles s h =
     (case cyclesRef s of
        None \<Rightarrow> (None, h)
      | Some p \<Rightarrow>
          (case fetch h p of
             Some (SliceArray cs) \<Rightarrow>
               (let (r, h1) = alloc h (SliceArray (replicate (length cs) None))
                in (Some r, cyclesLoop r 0 cs h1))
           | _ \<Rightarrow> (None, h)))"

section \<open>Predicates of the statements and example inputs\<close>

text \<open>An id names an open blocker when the issue map has it with a status other than
  closed.\<close>

definition isOpenIn :: "(string \<rightharpoonup> Issue) \<Rightarrow> string \<Rightarrow> bool" where
  "isOpenIn m b = (case m b of None \<Rightarrow> False | Some blocker \<Rightarrow> Status blocker \<noteq> StatusClosed)"

definition mkIssue :: "string \<Rightarrow> Status \<Rightarrow> Dependency option list \<Rightarrow> Issue" where
  "mkIssue ident st deps =
     \<lparr>ID = ident, Title = [], Status = st, Priority = 2, UpdatedAt = 0, Dependencies = deps\<rparr>"

definition dep :: "string \<Rightarrow> DependencyType \<Rightarrow> Dependency option" where
  "dep target kind = Some \<lparr>DependsOnID = target, Type = kind\<rparr>"

text \<open>A depends on B (open) and C (closed, through a legacy entry of empty kind), on a
  missing issue, and is related to B.\<close>

definition blockersExample :: "Issue list" where
  "blockersExample =
     [mkIssue ''A'' StatusOpen
        [dep ''B'' DepBlocks, dep ''C'' [], dep ''missing'' DepBlocks, dep ''B'' DepRelated],
      mkIssue ''B'' StatusOpen [],
      mkIssue ''C'' StatusClosed []]"

text \<open>\<^verbatim>\<open>NewAnalyzer(issues)\<close> followed by the analysis.\<close>

definition analyzeIssues :: "Issue list \<Rightarrow> AnalysisConfig \<Rightarrow> Library \<Rightarrow> error + GraphStats" where
  "analyzeIssues issues config lib =
     (case NewAnalyzer issues of Inl e \<Rightarrow> Inl e | Inr a \<Rightarrow> AnalyzeWithConfig a config lib)"

text \<open>One round of the first loop of \<^verbatim>\<open>NewAnalyzer\<close>.\<close>

definition addNode1 :: "Issue \<Rightarrow> Analyzer \<Rightarrow> Analyzer" where
  "addNode1 issue a =
     \<lparr>g = AddNode (g a) (NewNode (g a)),
      idToNode = (idToNode a)(ID issue \<mapsto> NewNode (g a)),
      nodeToID = (nodeToID a)(NewNode (g a) \<mapsto> ID issue),
      issueMap = AList.update (ID issue) issue (issueMap a)\<rparr>"

text \<open>The cap on stored cycles that \<^verbatim>\<open>computePhase2\<close> works with.\<close>

definition effectiveMaxCycles :: "AnalysisConfig \<Rightarrow> int" where
  "effectiveMaxCycles config =
     (if MaxCyclesToStore config = 0 then 100 else MaxCyclesToStore config)"

text \<open>A configuration with every algorithm enabled, and a run in which every timer
  fires before its algorithm answers, except the cycle enumeration's, which is given.\<close>

definition fullConfig :: "int \<Rightarrow> AnalysisConfig" where
  "fullConfig maxCycles =
     \<lparr>ComputePageRank = True, ComputeBetweenness = True, BetweennessMode = BetweennessExact,
      BetweennessSampleSize = 0, BetweennessIsApproximate = False, ComputeEigenvector = True,
      ComputeHITS = True, ComputeCriticalPath = True, ComputeCycles = True,
      MaxCyclesToStore = maxCycles\<rparr>"

definition timedOutLibrary :: "nat list list \<Rightarrow> nat list list outcome \<Rightarrow> Library" where
  "timedOutLibrary sccs cyc =
     \<lparr>nodesOrder = concat sccs, sortPhase1 = sccs, pageRankRun = TimedOut,
      exactBetweenness = [], approxBetweenness = \<lparr>Scores = [], Mode = BetweennessApproximate\<rparr>,
      betweennessTimedOut = True, eigenvectorRun = [], hitsRun = TimedOut, sortPhase2 = sccs,
      sccsCycles = sccs, cyclesRun = cyc\<rparr>"

text \<open>A and B block each other, and so do B and C: two simple cycles in one component.\<close>

definition twoCyclesExample :: "Issue list" where
  "twoCyclesExample =
     [mkIssue ''A'' StatusOpen [dep ''B'' DepBlocks],
      mkIssue ''B'' StatusOpen [dep ''A'' DepBlocks, dep ''C'' DepBlocks],
      mkIssue ''C'' StatusOpen [dep ''B'' DepBlocks]]"

definition twoCyclesLibrary :: Library where
  "twoCyclesLibrary = timedOutLibrary [[0, 1, 2]] (Done [[0, 1, 0], [1, 2, 1]])"

text \<open>An issue with a blocking dependency on itself, alone and beside another issue; an
  issue whose dependency list holds a nil entry.\<close>

definition selfLoopExample :: "Issue list" where
  "selfLoopExample = [mkIssue ''A'' StatusOpen [dep ''A'' DepBlocks]]"

definition selfBlockedExample :: "Issue list" where
  "selfBlockedExample =
     [mkIssue ''A'' StatusOpen [dep ''B'' DepBlocks],
      mkIssue ''B'' StatusOpen [dep ''B'' DepBlocks]]"

definition nilDependencyExample :: "Issue list" where
  "nilDependencyExample = [mkIssue ''A'' StatusOpen [None]]"

text \<open>The analyzer a graph library that stored the self-loop would have built from
  \<open>selfLoopExample\<close>.\<close>

definition selfLoopAnalyzer :: Analyzer where
  "selfLoopAnalyzer =
     \<lparr>g = \<lparr>nodes = [0], edges = [(0, 0)]\<rparr>, idToNode = [''A'' \<mapsto> 0], nodeToID = [0 \<mapsto> ''A''],
      issueMap = [(''A'', mkIssue ''A'' StatusOpen [dep ''A'' DepBlocks])]\<rparr>"

text \<open>The node an entry of a dependency list adds an edge to: none for a nil entry, for a
  kind that does not block and for a target that is not an issue of the input.\<close>

definition depTarget :: "(string \<rightharpoonup> nat) \<Rightarrow> Dependency option \<Rightarrow> nat option" where
  "depTarget ids entry =
     (case entry of
        None \<Rightarrow> None
      | Some d \<Rightarrow> if isBlockingDep (Type d) then ids (DependsOnID d) else None)"

definition depTargets :: "(string \<rightharpoonup> nat) \<Rightarrow> Dependency option list \<Rightarrow> nat set" where
  "depTargets ids deps = {v. \<exists>entry \<in> set deps. depTarget ids entry = Some v}"

text \<open>The edges the second loop of \<^verbatim>\<open>NewAnalyzer\<close> asks \<^verbatim>\<open>SetEdge\<close> for.\<close>

definition depEdges :: "(string \<rightharpoonup> nat) \<Rightarrow> Issue list \<Rightarrow> (nat \<times> nat) set" where
  "depEdges ids issues =
     {(u, v). \<exists>issue \<in> set issues. ids (ID issue) = Some u \<and> v \<in> depTargets ids (Dependencies issue)}"

text \<open>Issue \<open>u\<close> has a dependency entry of a blocking kind on the id of \<open>v\<close>: the edge
  from \<open>u\<close> to \<open>v\<close> of the input.\<close>

definition blocksOn :: "Issue \<Rightarrow> Issue \<Rightarrow> bool" where
  "blocksOn u v =
     list_ex (\<lambda>entry. case entry of
                         None \<Rightarrow> False
                       | Some d \<Rightarrow> isBlockingDep (Type d) \<and> DependsOnID d = ID v)
       (Dependencies u)"

text \<open>
  What the documentation of \<^verbatim>\<open>topo.TarjanSCC\<close> and of Tarjan's algorithm promises of a
  result \<open>sccs\<close>: the components partition the nodes, none is empty, the nodes of a
  component reach one another, and a component is emitted after every component it has
  an edge to, so no edge leads from a component to a later one. \<open>compIndex\<close> is the
  position of the component of a node.
\<close>

definition compIndex :: "nat list list \<Rightarrow> nat \<Rightarrow> nat" where
  "compIndex sccs n = length (takeWhile (\<lambda>s. n \<notin> set s) sccs)"

definition sccs_ok :: "Graph \<Rightarrow> nat list list \<Rightarrow> bool" where
  "sccs_ok gr sccs \<longleftrightarrow>
     distinct (concat sccs) \<and> set (concat sccs) = set (nodes gr) \<and> [] \<notin> set sccs
     \<and> (\<forall>s \<in> set sccs. \<forall>u \<in> set s. \<forall>v \<in> set s. (u, v) \<in> (set (edges gr))\<^sup>*)
     \<and> (\<forall>(u, v) \<in> set (edges gr). compIndex sccs v \<le> compIndex sccs u)"

text \<open>What is assumed of a result of \<^verbatim>\<open>topo.DirectedCyclesIn\<close>: every entry is a closed
  walk along edges (the first node repeated at the end), and there is an entry when the
  graph has a cycle.\<close>

definition cyclePath :: "Graph \<Rightarrow> nat list \<Rightarrow> bool" where
  "cyclePath gr c \<longleftrightarrow>
     2 \<le> length c \<and> hd c = last c \<and> list_all (\<lambda>e. e \<in> set (edges gr)) (zip c (tl c))"

definition cycles_ok :: "Graph \<Rightarrow> nat list list \<Rightarrow> bool" where
  "cycles_ok gr found \<longleftrightarrow>
     list_all (cyclePath gr) found \<and> (found = [] \<longrightarrow> acyclic (set (edges gr)))"

text \<open>The position of the first occurrence of \<open>x\<close> in a list, and \<open>x\<close> occurring before
  \<open>y\<close> in it.\<close>

definition posIn :: "'a list \<Rightarrow> 'a \<Rightarrow> nat" where
  "posIn xs x = length (takeWhile (\<lambda>y. y \<noteq> x) xs)"

definition appearsBefore :: "'a list \<Rightarrow> 'a \<Rightarrow> 'a \<Rightarrow> bool" where
  "appearsBefore xs x y \<longleftrightarrow> posIn xs x < posIn xs y \<and> posIn xs y < length xs"

text \<open>The local map \<^verbatim>\<open>heights\<close> of \<^verbatim>\<open>computeHeights\<close> when its loop ends.\<close>

fun heightsMap :: "Graph \<Rightarrow> nat list \<Rightarrow> (nat \<rightharpoonup> real) \<Rightarrow> (nat \<rightharpoonup> real)" where
  "heightsMap gr [] hs = hs"
| "heightsMap gr (n # rest) hs =
     heightsMap gr rest (hs(n \<mapsto> 1 + maxParentHeight hs (To gr n)))"

text \<open>The chain of three issues: A depends on B, B on C. Its components are emitted
  C first.\<close>

definition chainExample :: "Issue list" where
  "chainExample =
     [mkIssue ''A'' StatusOpen [dep ''B'' DepBlocks],
      mkIssue ''B'' StatusOpen [dep ''C'' DepBlocks],
      mkIssue ''C'' StatusOpen []]"

definition chainLibrary :: Library where
  "chainLibrary = timedOutLibrary [[2], [1], [0]] (Done [])"

text \<open>
  The formula of the impact score as the specification words it, to compare with
  \<open>scoreIssue\<close>: the maxima of an analysis, a ratio that is 0 when the maximum is 0, the
  staleness \<open>min (days_since_update / 30, 1)\<close> and the priority boost; every operation
  is one of \<^verbatim>\<open>float64\<close>, and the sum is taken from left to right.
\<close>

definition daysSinceUpdate :: "Time \<Rightarrow> Time \<Rightarrow> float64" where
  "daysSinceUpdate updatedAt now = fdiv (Hours (Sub now updatedAt)) 24"

definition specStaleness :: "Time \<Rightarrow> Time \<Rightarrow> float64" where
  "specStaleness updatedAt now = min (fdiv (daysSinceUpdate updatedAt now) 30) 1"

definition specPriorityBoost :: "int \<Rightarrow> float64" where
  "specPriorityBoost priority =
     (if priority = 0 then 1 else if priority = 1 then 75 / 100 else if priority = 2 then 5 / 10
      else if priority = 3 then 25 / 100 else 0)"

definition specMaximum :: "(string \<times> 'a :: {linorder, zero}) list \<Rightarrow> 'a" where
  "specMaximum m = Max (insert 0 (snd ` set m))"

definition specRatio :: "float64 \<Rightarrow> float64 \<Rightarrow> float64" where
  "specRatio v mx = (if mx = 0 then 0 else fdiv v mx)"

definition specRatioInt :: "int \<Rightarrow> int \<Rightarrow> float64" where
  "specRatioInt v mx = (if mx = 0 then 0 else fdiv (ofInt v) (ofInt mx))"

definition specScore :: "GraphStats \<Rightarrow> string \<Rightarrow> float64 \<Rightarrow> int \<Rightarrow> float64" where
  "specScore stats ident staleness priority =
     fadd (fadd (fadd (fadd
       (fmul (round64 (30 / 100))
          (specRatio (lookup0 (pageRank stats) ident) (specMaximum (pageRank stats))))
       (fmul (round64 (30 / 100))
          (specRatio (lookup0 (betweenness stats) ident) (specMaximum (betweenness stats)))))
       (fmul (round64 (20 / 100))
          (specRatioInt (lookup0 (InDegree stats) ident) (specMaximum (InDegree stats)))))
       (fmul (round64 (10 / 100)) staleness))
       (fmul (round64 (10 / 100)) (specPriorityBoost priority))"

text \<open>The staleness \<^verbatim>\<open>computeStaleness\<close> computes: one half for the zero time, and never
  below 0.\<close>

definition amendedStaleness :: "Time \<Rightarrow> Time \<Rightarrow> float64" where
  "amendedStaleness updatedAt now =
     (if updatedAt = 0 then 1 / 2 else max 0 (min (fdiv (daysSinceUpdate updatedAt now) 30) 1))"

text \<open>The order of the returned list: score descending, ties by id ascending.\<close>

definition scoreOrder :: "ImpactScore \<Rightarrow> ImpactScore \<Rightarrow> bool" where
  "scoreOrder x y \<longleftrightarrow> Score x > Score y \<or> (Score x = Score y \<and> IssueID x < IssueID y)"

text \<open>\<^verbatim>\<open>NewAnalyzer(issues).ComputeImpactScoresAt(now)\<close>.\<close>

definition impactScoresOf :: "Issue list \<Rightarrow> Time \<Rightarrow> AnalysisConfig \<Rightarrow> Library \<Rightarrow> string list \<Rightarrow> error + ImpactScore list" where
  "impactScoresOf issues now config lib ks =
     (case NewAnalyzer issues of Inl e \<Rightarrow> Inl e | Inr a \<Rightarrow> ComputeImpactScoresAt a now config lib ks)"

text \<open>A configuration with every algorithm disabled; a time in the year 2026 and the
  length of a day, in nanoseconds; issues for the impact scores.\<close>

definition quietConfig :: AnalysisConfig where
  "quietConfig =
     \<lparr>ComputePageRank = False, ComputeBetweenness = False, BetweennessMode = BetweennessExact,
      BetweennessSampleSize = 0, BetweennessIsApproximate = False, ComputeEigenvector = False,
      ComputeHITS = False, ComputeCriticalPath = False, ComputeCycles = False,
      MaxCyclesToStore = 0\<rparr>"

definition nowT :: Time where "nowT = 63900000000000000000"

definition day :: int where "day = 86400000000000"

definition zeroTimeExample :: "Issue list" where
  "zeroTimeExample =
     [\<lparr>ID = ''A'', Title = [], Status = StatusOpen, Priority = 4, UpdatedAt = 0, Dependencies = []\<rparr>]"

definition futureExample :: "Issue list" where
  "futureExample =
     [\<lparr>ID = ''A'', Title = [], Status = StatusOpen, Priority = 4, UpdatedAt = nowT + 30 * day,
       Dependencies = []\<rparr>]"

definition impactWitness :: "Issue list" where
  "impactWitness =
     [\<lparr>ID = ''A'', Title = [], Status = StatusOpen, Priority = 0, UpdatedAt = nowT - 15 * day,
       Dependencies = [dep ''B'' DepBlocks]\<rparr>,
      \<lparr>ID = ''B'', Title = [], Status = StatusOpen, Priority = 0, UpdatedAt = nowT - 15 * day,
       Dependencies = []\<rparr>,
      \<lparr>ID = ''C'', Title = [], Status = StatusClosed, Priority = 0, UpdatedAt = nowT - 15 * day,
       Dependencies = []\<rparr>,
      \<lparr>ID = ''D'', Title = [], Status = StatusOpen, Priority = 4, UpdatedAt = 0,
       Dependencies = []\<rparr>,
      \<lparr>ID = ''E'', Title = [], Status = StatusOpen, Priority = 0, UpdatedAt = nowT - 15 * day,
       Dependencies = []\<rparr>]"

text \<open>Two issues whose scores are both 61/600 in exact arithmetic: priority 0 updated
  12 hours ago, and priority 1 updated 8 days ago.\<close>

definition roundingExample :: "Issue list" where
  "roundingExample =
     [\<lparr>ID = ''A'', Title = [], Status = StatusOpen, Priority = 0,
       UpdatedAt = nowT - 12 * Hour, Dependencies = []\<rparr>,
      \<lparr>ID = ''B'', Title = [], Status = StatusOpen, Priority = 1,
       UpdatedAt = nowT - 8 * day, Dependencies = []\<rparr>]"

definition impactLibrary :: Library where
  "impactLibrary = timedOutLibrary [[1], [0], [2], [3], [4]] TimedOut"

definition singleLibrary :: Library where
  "singleLibrary = timedOutLibrary [[0]] TimedOut"

text \<open>
  For the snapshot accessors: the references held by the phase-2 fields; the references
  of the objects a value is made of (the object itself and, for a slice of slices, the
  arrays of its elements); a statistics value all of whose objects are in the store; a
  store \<open>k\<close> that comes from \<open>h\<close> by writes to objects in \<open>R\<close> and by allocations; and what
  a caller reads through a returned value.
\<close>

definition fieldRefs :: "GraphStatsRefs \<Rightarrow> ref option list" where
  "fieldRefs s =
     [pageRankRef s, betweennessRef s, eigenvectorRef s, hubsRef s, authoritiesRef s,
      criticalPathScoreRef s, cyclesRef s]"

definition innerRefs :: "store \<Rightarrow> ref option \<Rightarrow> ref set" where
  "innerRefs h r =
     (case r of
        None \<Rightarrow> {}
      | Some p \<Rightarrow> (case fetch h p of Some (SliceArray cs) \<Rightarrow> {q. Some q \<in> set cs} | _ \<Rightarrow> {}))"

definition snapshotRefs :: "store \<Rightarrow> ref option \<Rightarrow> ref set" where
  "snapshotRefs h r = (case r of None \<Rightarrow> {} | Some p \<Rightarrow> insert p (innerRefs h r))"

definition validRefs :: "GraphStatsRefs \<Rightarrow> store \<Rightarrow> bool" where
  "validRefs s h \<longleftrightarrow>
     (\<forall>r \<in> set (fieldRefs s). \<forall>q \<in> snapshotRefs h r. q < length h)"

definition mutatedThrough :: "ref set \<Rightarrow> store \<Rightarrow> store \<Rightarrow> bool" where
  "mutatedThrough R h k \<longleftrightarrow>
     length h \<le> length k \<and> (\<forall>q < length h. q \<notin> R \<longrightarrow> k ! q = h ! q)"

definition contents :: "store \<Rightarrow> ref option \<Rightarrow> (string \<rightharpoonup> real) option \<times> string list list option" where
  "contents h r =
     (case r of
        None \<Rightarrow> (None, None)
      | Some p \<Rightarrow>
          (case fetch h p of
             Some (MapObject m) \<Rightarrow> (Some (map_of m), None)
           | Some (SliceArray cs) \<Rightarrow> (None, Some (map (readStrings h) cs))
           | _ \<Rightarrow> (None, None)))"

definition contentsOf :: "ref option \<times> store \<Rightarrow> (string \<rightharpoonup> real) option \<times> string list list option" where
  "contentsOf res = contents (snd res) (fst res)"

definition accessors :: "(GraphStatsRefs \<Rightarrow> store \<Rightarrow> ref option \<times> store) list" where
  "accessors = [PageRank, Betweenness, Eigenvector, Hubs, Authorities, CriticalPathScore, Cycles]"

text \<open>Each accessor with the field it reads. The fields are typed in Go: a map field is
  nil or refers to a map, which holds each key once, and \<^verbatim>\<open>cycles\<close> is nil or refers to
  an array of slices.\<close>

definition snapshotFields ::
  "((GraphStatsRefs \<Rightarrow> store \<Rightarrow> ref option \<times> store) \<times> (GraphStatsRefs \<Rightarrow> ref option)) list" where
  "snapshotFields =
     [(PageRank, pageRankRef), (Betweenness, betweennessRef), (Eigenvector, eigenvectorRef),
      (Hubs, hubsRef), (Authorities, authoritiesRef), (CriticalPathScore, criticalPathScoreRef),
      (Cycles, cyclesRef)]"

definition mapObjectAt :: "store \<Rightarrow> ref option \<Rightarrow> bool" where
  "mapObjectAt h f =
     (case f of
        None \<Rightarrow> True
      | Some p \<Rightarrow> (case fetch h p of Some (MapObject m) \<Rightarrow> distinct (map fst m) | _ \<Rightarrow> False))"

definition sliceArrayAt :: "store \<Rightarrow> ref option \<Rightarrow> bool" where
  "sliceArrayAt h f =
     (case f of
        None \<Rightarrow> True
      | Some p \<Rightarrow> (case fetch h p of Some (SliceArray cs) \<Rightarrow> True | _ \<Rightarrow> False))"

definition typedRefs :: "GraphStatsRefs \<Rightarrow> store \<Rightarrow> bool" where
  "typedRefs s h \<longleftrightarrow>
     list_all (mapObjectAt h)
       [pageRankRef s, betweennessRef s, eigenvectorRef s, hubsRef s, authoritiesRef s,
        criticalPathScoreRef s]
     \<and> sliceArrayAt h (cyclesRef s)"

text \<open>A store with a PageRank map, one stored cycle and a nil slice, and statistics whose
  fields refer to them.\<close>

definition exampleStore :: store where
  "exampleStore =
     [MapObject [(''A'', 1 / 2), (''B'', 1 / 2)],
      StringArray [''A'', ''B'', ''A''],
      SliceArray [Some 1, None]]"

definition exampleStats :: GraphStatsRefs where
  "exampleStats =
     \<lparr>pageRankRef = Some 0, betweennessRef = None, eigenvectorRef = None, hubsRef = None,
      authoritiesRef = None, criticalPathScoreRef = None, cyclesRef = Some 2\<rparr>"

text \<open>An entry of a dependency list blocks when its kind is blocking and its target is an
  issue of the map that is not closed; an issue is actionable when it is not closed and
  no entry of its list blocks.\<close>

definition blockedBy :: "(string \<rightharpoonup> Issue) \<Rightarrow> Dependency option \<Rightarrow> bool" where
  "blockedBy m entry =
     (case entry of
        None \<Rightarrow> False
      | Some d \<Rightarrow> isBlockingDep (Type d) \<and> isOpenIn m (DependsOnID d))"

definition actionable :: "(string \<rightharpoonup> Issue) \<Rightarrow> Issue \<Rightarrow> bool" where
  "actionable m issue \<longleftrightarrow>
     Status issue \<noteq> StatusClosed \<and> \<not> list_ex (blockedBy m) (Dependencies issue)"

section \<open>Properties\<close>

lemmas eval_defs =
  NewAnalyzer_def addDep_def SetEdge_def emptyAnalyzer_def NewDirectedGraph_def NewNode_def
  AddNode_def isBlockingDep_def DepBlocks_def DepRelated_def DepParentChild_def
  StatusClosed_def StatusOpen_def Let_def mkIssue_def dep_def

lemmas run_defs =
  analyzeIssues_def AnalyzeWithConfig_def newGraphStats_def computePhase1_def
  computePhase2_def pageRankSection_def betweennessSection_def betweennessRun_def
  eigenvectorSection_def hitsSection_def criticalPathSection_def cyclesSection_def Sort_def
  lookupID_def byIssueID_def computeHeights_def maxParentHeight_def To_def From_def
  EdgesLen_def fullConfig_def timedOutLibrary_def

subsection \<open>The first loop of \<^verbatim>\<open>NewAnalyzer\<close>\<close>

lemma addNodes_append: "addNodes (xs @ ys) a = addNodes ys (addNodes xs a)"
  by (induction xs arbitrary: a) (simp_all add: Let_def)

lemma addNodes_snoc: "addNodes (xs @ [x]) a = addNode1 x (addNodes xs a)"
  by (simp add: addNodes_append Let_def addNode1_def)

lemma addNodes_issueMap_keys:
  "fst ` set (issueMap (addNodes issues emptyAnalyzer)) = ID ` set issues
   \<and> distinct (map fst (issueMap (addNodes issues emptyAnalyzer)))"
proof (induction issues rule: rev_induct)
  case Nil
  show ?case by (simp add: emptyAnalyzer_def)
next
  case (snoc x xs)
  then show ?case by (simp add: addNodes_snoc addNode1_def distinct_update dom_update)
qed

lemma addNodes_issueMap_length:
  "length (issueMap (addNodes issues emptyAnalyzer)) = card (ID ` set issues)"
  using addNodes_issueMap_keys [of issues]
  by (metis distinct_card length_map list.set_map)

lemma NewAnalyzer_issueMap:
  "NewAnalyzer issues = Inr a \<Longrightarrow> issueMap a = issueMap (addNodes issues emptyAnalyzer)"
  by (auto simp: NewAnalyzer_def Let_def split: sum.splits)

lemma addNodes_graph:
  "nodes (g (addNodes issues emptyAnalyzer)) = [0..<length issues]
   \<and> edges (g (addNodes issues emptyAnalyzer)) = []"
proof (induction issues rule: rev_induct)
  case Nil
  show ?case by (simp add: emptyAnalyzer_def NewDirectedGraph_def)
next
  case (snoc x xs)
  then show ?case by (simp add: addNodes_snoc addNode1_def AddNode_def NewNode_def)
qed

lemma addNodes_nodeToID:
  "nodeToID (addNodes issues emptyAnalyzer) k =
     (if k < length issues then Some (ID (issues ! k)) else None)"
proof (induction issues rule: rev_induct)
  case Nil
  show ?case by (simp add: emptyAnalyzer_def)
next
  case (snoc x xs)
  then show ?case
    by (auto simp: addNodes_snoc addNode1_def NewNode_def addNodes_graph nth_append)
qed

lemma addNodes_idToNode_dom:
  "dom (idToNode (addNodes issues emptyAnalyzer)) = ID ` set issues"
proof (induction issues rule: rev_induct)
  case Nil
  show ?case by (simp add: emptyAnalyzer_def)
next
  case (snoc x xs)
  then show ?case by (auto simp: addNodes_snoc addNode1_def dom_def split: if_splits)
qed

lemma addNodes_idToNode_range:
  "idToNode (addNodes issues emptyAnalyzer) k = Some n \<Longrightarrow> n < length issues \<and> ID (issues ! n) = k"
proof (induction issues arbitrary: n rule: rev_induct)
  case Nil
  then show ?case by (simp add: emptyAnalyzer_def)
next
  case (snoc x xs)
  then show ?case
    by (auto simp: addNodes_snoc addNode1_def NewNode_def addNodes_graph nth_append less_Suc_eq split: if_splits)
qed

lemma addNodes_idToNode:
  "distinct (map ID issues) \<Longrightarrow> i < length issues \<Longrightarrow>
     idToNode (addNodes issues emptyAnalyzer) (ID (issues ! i)) = Some i"
proof -
  assume d: "distinct (map ID issues)" and i: "i < length issues"
  have "ID (issues ! i) \<in> dom (idToNode (addNodes issues emptyAnalyzer))"
    using i by (simp add: addNodes_idToNode_dom)
  then obtain n where n: "idToNode (addNodes issues emptyAnalyzer) (ID (issues ! i)) = Some n"
    by blast
  from addNodes_idToNode_range [OF n] have "n < length issues" "ID (issues ! n) = ID (issues ! i)"
    by simp_all
  with d i have "n = i"
    by (metis distinct_conv_nth length_map nth_map)
  with n show ?thesis by simp
qed

lemma addNodes_issueMap:
  "map_of (issueMap (addNodes issues emptyAnalyzer)) = map_of (rev (map (\<lambda>i. (ID i, i)) issues))"
proof (induction issues rule: rev_induct)
  case Nil
  show ?case by (simp add: emptyAnalyzer_def)
next
  case (snoc x xs)
  then show ?case by (simp add: addNodes_snoc addNode1_def update_conv' fun_eq_iff)
qed

lemma addNodes_issueMap_distinct:
  "distinct (map ID issues) \<Longrightarrow>
     issueMap (addNodes issues emptyAnalyzer) = map (\<lambda>i. (ID i, i)) issues"
proof (induction issues rule: rev_induct)
  case Nil
  show ?case by (simp add: emptyAnalyzer_def)
next
  case (snoc x xs)
  then have "ID x \<notin> ID ` set xs" by auto
  then have "ID x \<notin> fst ` set (map (\<lambda>i. (ID i, i)) xs)" by (simp add: image_image)
  then have "AList.update (ID x) x (map (\<lambda>i. (ID i, i)) xs) = map (\<lambda>i. (ID i, i)) xs @ [(ID x, x)]"
    by (induction xs) auto
  with snoc show ?case
    by (simp add: addNodes_snoc addNode1_def)
qed

subsection \<open>The second loop of \<^verbatim>\<open>NewAnalyzer\<close>: the edges of the graph\<close>

lemma addDep_depTarget:
  "addDep ids u entry gr = (case depTarget ids entry of None \<Rightarrow> Inr gr | Some v \<Rightarrow> SetEdge gr u v)"
  by (simp add: addDep_def depTarget_def split: option.splits)

lemma depTargets_Nil [simp]: "depTargets ids [] = {}"
  by (simp add: depTargets_def)

lemma depTargets_Cons:
  "depTargets ids (entry # deps) =
     (case depTarget ids entry of None \<Rightarrow> {} | Some v \<Rightarrow> {v}) \<union> depTargets ids deps"
  by (auto simp: depTargets_def split: option.splits)

lemma addDeps_result:
  "(u \<in> depTargets ids deps \<longrightarrow> addDeps ids u deps gr = Inl SelfEdgePanic)
   \<and> (u \<notin> depTargets ids deps \<longrightarrow>
        (\<exists>gr'. addDeps ids u deps gr = Inr gr' \<and> nodes gr' = nodes gr
           \<and> set (edges gr') = set (edges gr) \<union> {u} \<times> depTargets ids deps
           \<and> (distinct (edges gr) \<longrightarrow> distinct (edges gr'))))"
proof (induction deps arbitrary: gr)
  case Nil
  show ?case by simp
next
  case (Cons entry deps)
  show ?case
  proof (cases "depTarget ids entry")
    case None
    with Cons.IH [of gr] show ?thesis
      by (simp add: addDep_depTarget depTargets_Cons)
  next
    case (Some v)
    show ?thesis
    proof (cases "u = v")
      case True
      with Some show ?thesis
        by (simp add: addDep_depTarget depTargets_Cons SetEdge_def)
    next
      case False
      define gr1 where "gr1 = (if (u, v) \<in> set (edges gr) then gr else gr\<lparr>edges := edges gr @ [(u, v)]\<rparr>)"
      have step: "addDep ids u entry gr = Inr gr1"
        using Some False by (simp add: addDep_depTarget SetEdge_def gr1_def)
      have gr1: "nodes gr1 = nodes gr" "set (edges gr1) = insert (u, v) (set (edges gr))"
        "distinct (edges gr) \<longrightarrow> distinct (edges gr1)"
        by (auto simp: gr1_def)
      from Cons.IH [of gr1] step gr1 Some False show ?thesis
        by (auto simp: depTargets_Cons)
    qed
  qed
qed

lemma depEdges_Nil [simp]: "depEdges ids [] = {}"
  by (simp add: depEdges_def)

lemma depEdges_Cons:
  "depEdges ids (issue # rest) =
     (case ids (ID issue) of None \<Rightarrow> {} | Some u \<Rightarrow> {u} \<times> depTargets ids (Dependencies issue))
     \<union> depEdges ids rest"
  by (auto simp: depEdges_def split: option.splits)

lemma addEdges_result:
  "((\<exists>u. (u, u) \<in> depEdges ids issues) \<longrightarrow> addEdges ids issues gr = Inl SelfEdgePanic)
   \<and> ((\<forall>u. (u, u) \<notin> depEdges ids issues) \<longrightarrow>
        (\<exists>gr'. addEdges ids issues gr = Inr gr' \<and> nodes gr' = nodes gr
           \<and> set (edges gr') = set (edges gr) \<union> depEdges ids issues
           \<and> (distinct (edges gr) \<longrightarrow> distinct (edges gr'))))"
proof (induction issues arbitrary: gr)
  case Nil
  show ?case by simp
next
  case (Cons issue rest)
  show ?case
  proof (cases "ids (ID issue)")
    case None
    with Cons.IH [of gr] show ?thesis
      by (simp add: depEdges_Cons)
  next
    case (Some u)
    show ?thesis
    proof (cases "u \<in> depTargets ids (Dependencies issue)")
      case True
      with Some addDeps_result [of u ids "Dependencies issue" gr] show ?thesis
        by (auto simp: depEdges_Cons)
    next
      case False
      with addDeps_result [of u ids "Dependencies issue" gr]
      obtain gr1 where gr1: "addDeps ids u (Dependencies issue) gr = Inr gr1" "nodes gr1 = nodes gr"
        "set (edges gr1) = set (edges gr) \<union> {u} \<times> depTargets ids (Dependencies issue)"
        "distinct (edges gr) \<longrightarrow> distinct (edges gr1)"
        by blast
      have self: "(\<exists>w. (w, w) \<in> depEdges ids (issue # rest)) = (\<exists>w. (w, w) \<in> depEdges ids rest)"
        using Some False by (auto simp: depEdges_Cons)
      from Cons.IH [of gr1] gr1 Some show ?thesis
        unfolding self by (auto simp: depEdges_Cons)
    qed
  qed
qed

lemma NewAnalyzer_result:
  "((\<exists>u. (u, u) \<in> depEdges (idToNode (addNodes issues emptyAnalyzer)) issues) \<longrightarrow>
      NewAnalyzer issues = Inl SelfEdgePanic)
   \<and> ((\<forall>u. (u, u) \<notin> depEdges (idToNode (addNodes issues emptyAnalyzer)) issues) \<longrightarrow>
        (\<exists>gr. NewAnalyzer issues = Inr ((addNodes issues emptyAnalyzer)\<lparr>g := gr\<rparr>)
           \<and> nodes gr = [0..<length issues]
           \<and> set (edges gr) = depEdges (idToNode (addNodes issues emptyAnalyzer)) issues
           \<and> distinct (edges gr)))"
  using addEdges_result [of "idToNode (addNodes issues emptyAnalyzer)" issues
      "g (addNodes issues emptyAnalyzer)"] addNodes_graph [of issues]
  by (auto simp: NewAnalyzer_def Let_def)

lemma NewAnalyzer_Inr:
  assumes "NewAnalyzer issues = Inr a"
  shows "nodes (g a) = [0..<length issues]"
    and "set (edges (g a)) = depEdges (idToNode a) issues"
    and "distinct (edges (g a))"
    and "\<forall>u. (u, u) \<notin> set (edges (g a))"
    and "idToNode a = idToNode (addNodes issues emptyAnalyzer)"
    and "nodeToID a = nodeToID (addNodes issues emptyAnalyzer)"
proof -
  have no: "\<forall>u. (u, u) \<notin> depEdges (idToNode (addNodes issues emptyAnalyzer)) issues"
    using NewAnalyzer_result [of issues] assms by auto
  with NewAnalyzer_result [of issues] assms
  obtain gr where gr: "a = (addNodes issues emptyAnalyzer)\<lparr>g := gr\<rparr>"
      "nodes gr = [0..<length issues]"
      "set (edges gr) = depEdges (idToNode (addNodes issues emptyAnalyzer)) issues"
      "distinct (edges gr)"
    by auto
  from gr no show "nodes (g a) = [0..<length issues]"
    and "set (edges (g a)) = depEdges (idToNode a) issues"
    and "distinct (edges (g a))"
    and "\<forall>u. (u, u) \<notin> set (edges (g a))"
    and "idToNode a = idToNode (addNodes issues emptyAnalyzer)"
    and "nodeToID a = nodeToID (addNodes issues emptyAnalyzer)"
    by simp_all
qed

lemma depEdges_bound:
  "(u, v) \<in> depEdges (idToNode (addNodes issues emptyAnalyzer)) issues \<Longrightarrow>
     u < length issues \<and> v < length issues"
  by (auto simp: depEdges_def depTargets_def depTarget_def
           dest: addNodes_idToNode_range split: option.splits if_splits)

lemma issue_of_ID:
  "distinct (map ID issues) \<Longrightarrow> x \<in> set issues \<Longrightarrow> i < length issues \<Longrightarrow>
     ID (issues ! i) = ID x \<Longrightarrow> issues ! i = x"
  by (metis distinct_map inj_onD nth_mem)

lemma depTargets_blocksOn:
  assumes d: "distinct (map ID issues)" and j: "j < length issues"
  shows "j \<in> depTargets (idToNode (addNodes issues emptyAnalyzer)) (Dependencies u)
         \<longleftrightarrow> blocksOn u (issues ! j)"
proof
  assume "j \<in> depTargets (idToNode (addNodes issues emptyAnalyzer)) (Dependencies u)"
  then obtain entry where entry: "entry \<in> set (Dependencies u)"
      "depTarget (idToNode (addNodes issues emptyAnalyzer)) entry = Some j"
    by (auto simp: depTargets_def)
  then obtain dd where dd: "entry = Some dd" "isBlockingDep (Type dd)"
      "idToNode (addNodes issues emptyAnalyzer) (DependsOnID dd) = Some j"
    by (auto simp: depTarget_def split: option.splits if_splits)
  from addNodes_idToNode_range [OF dd(3)] have "ID (issues ! j) = DependsOnID dd" by simp
  with entry(1) dd show "blocksOn u (issues ! j)"
    unfolding blocksOn_def list_ex_iff by (intro bexI [of _ "Some dd"]) simp_all
next
  assume "blocksOn u (issues ! j)"
  then obtain dd where dd: "Some dd \<in> set (Dependencies u)" "isBlockingDep (Type dd)"
      "DependsOnID dd = ID (issues ! j)"
    by (auto simp: blocksOn_def list_ex_iff split: option.splits)
  from addNodes_idToNode [OF d j] dd(3)
  have "idToNode (addNodes issues emptyAnalyzer) (DependsOnID dd) = Some j" by simp
  with dd(1,2) show "j \<in> depTargets (idToNode (addNodes issues emptyAnalyzer)) (Dependencies u)"
    by (force simp: depTargets_def depTarget_def)
qed

lemma NewAnalyzer_edge_iff:
  assumes a: "NewAnalyzer issues = Inr a" and d: "distinct (map ID issues)"
    and i: "i < length issues" and j: "j < length issues"
  shows "(i, j) \<in> set (edges (g a)) \<longleftrightarrow> blocksOn (issues ! i) (issues ! j)"
proof -
  let ?ids = "idToNode (addNodes issues emptyAnalyzer)"
  have e: "set (edges (g a)) = depEdges ?ids issues"
    using NewAnalyzer_Inr(2,5) [OF a] by simp
  have "(i, j) \<in> depEdges ?ids issues \<longleftrightarrow> j \<in> depTargets ?ids (Dependencies (issues ! i))"
  proof
    assume "(i, j) \<in> depEdges ?ids issues"
    then obtain x where x: "x \<in> set issues" "?ids (ID x) = Some i"
        "j \<in> depTargets ?ids (Dependencies x)"
      by (auto simp: depEdges_def)
    from addNodes_idToNode_range [OF x(2)] issue_of_ID [OF d x(1) i] have "issues ! i = x"
      by simp
    with x(3) show "j \<in> depTargets ?ids (Dependencies (issues ! i))" by simp
  next
    assume "j \<in> depTargets ?ids (Dependencies (issues ! i))"
    with addNodes_idToNode [OF d i] i show "(i, j) \<in> depEdges ?ids issues"
      by (auto simp: depEdges_def intro!: bexI [of _ "issues ! i"])
  qed
  with e depTargets_blocksOn [OF d j] show ?thesis by simp
qed

lemma NewAnalyzer_edges_bound:
  assumes "NewAnalyzer issues = Inr a"
  shows "\<forall>(u, v) \<in> set (edges (g a)). u \<in> set (nodes (g a)) \<and> v \<in> set (nodes (g a))"
  using NewAnalyzer_Inr(1,2,5) [OF assms] depEdges_bound [of _ _ issues]
  by auto

lemma NewAnalyzer_lookupID:
  assumes "NewAnalyzer issues = Inr a" and "k < length issues"
  shows "lookupID a k = ID (issues ! k)"
  using NewAnalyzer_Inr(6) [OF assms(1)] assms(2)
  by (simp add: lookupID_def addNodes_nodeToID)

lemma NewAnalyzer_lookupID_map:
  assumes "NewAnalyzer issues = Inr a"
  shows "map (lookupID a) [0..<length issues] = map ID issues"
  using NewAnalyzer_lookupID [OF assms]
  by (auto intro: nth_equalityI)

lemma NewAnalyzer_lookupID_inj:
  assumes "NewAnalyzer issues = Inr a" and "distinct (map ID issues)"
  shows "inj_on (lookupID a) (set (nodes (g a)))"
proof -
  have "distinct (map (lookupID a) [0..<length issues])"
    using NewAnalyzer_lookupID_map [OF assms(1)] assms(2) by simp
  then have "inj_on (lookupID a) (set [0..<length issues])"
    by (simp add: distinct_map)
  with NewAnalyzer_Inr(1) [OF assms(1)] show ?thesis by simp
qed

lemma NewAnalyzer_issueMap_nonempty:
  assumes "NewAnalyzer issues = Inr a" and "issues \<noteq> []"
  shows "issueMap a \<noteq> []"
proof -
  have "length (issueMap a) = card (ID ` set issues)"
    using NewAnalyzer_issueMap [OF assms(1)] addNodes_issueMap_length [of issues] by simp
  moreover have "ID ` set issues \<noteq> {}" using assms(2) by simp
  then have "card (ID ` set issues) \<noteq> 0" by simp
  ultimately show ?thesis by auto
qed

subsection \<open>PageRank on timeout\<close>

lemma map_of_foldl_update_const:
  "map_of (foldl (\<lambda>m k. AList.update k c m) init ks) =
     (\<lambda>k. if k \<in> set ks then Some c else map_of init k)"
  by (induction ks arbitrary: init) (auto simp: update_conv' fun_eq_iff)

lemma keys_foldl_update_const:
  "fst ` set (foldl (\<lambda>m k. AList.update k c m) init ks) = fst ` set init \<union> set ks"
  by (induction ks arbitrary: init) (auto simp: dom_update)

lemma computePhase2_pageRank:
  "computePhase2 a config lib stats = Inr st \<Longrightarrow> pageRank st = pageRankSection a config lib"
  by (auto simp: computePhase2_def Let_def split: prod.splits sum.splits)

text \<open>
  C7. When PageRank is enabled and its timer fires first, the published PageRank map of
  a non-empty input has exactly the ids of the input as keys and gives each the value
  \<open>1 / |V|\<close>, \<open>|V|\<close> being the number of ids.
\<close>

theorem pageRank_timeout_uniform:
  assumes "NewAnalyzer issues = Inr a"
    and "issues \<noteq> []"
    and "ComputePageRank config"
    and "pageRankRun lib = TimedOut"
    and "AnalyzeWithConfig a config lib = Inr st"
  shows "fst ` set (pageRank st) = ID ` set issues
       \<and> (\<forall>issue \<in> set issues.
            map_of (pageRank st) (ID issue) = Some (1 / real (card (ID ` set issues))))"
proof -
  have im: "issueMap a = issueMap (addNodes issues emptyAnalyzer)"
    using assms(1) by (rule NewAnalyzer_issueMap)
  have keys: "set (map fst (issueMap a)) = ID ` set issues"
    using addNodes_issueMap_keys [of issues] im by simp
  have len: "length (issueMap a) = card (ID ` set issues)"
    using addNodes_issueMap_length [of issues] im by simp
  have "ID ` set issues \<noteq> {}" using assms(2) by simp
  then have "card (ID ` set issues) \<noteq> 0" by simp
  with len have "length (issueMap a) \<noteq> 0" by simp
  with assms(5)
  have "computePhase2 a config lib (computePhase1 a lib (newGraphStats a config)) = Inr st"
    by (simp add: AnalyzeWithConfig_def Let_def newGraphStats_def)
  then have "pageRank st = pageRankSection a config lib"
    by (rule computePhase2_pageRank)
  then have pr: "pageRank st =
      foldl (\<lambda>m ident. AList.update ident (1 / real (card (ID ` set issues))) m) []
        (map fst (issueMap a))"
    using assms(3,4) len by (simp add: pageRankSection_def Let_def)
  show ?thesis
    unfolding pr map_of_foldl_update_const keys_foldl_update_const keys
    by simp
qed

theorem pageRank_timeout_uniform_witness:
  "twoCyclesExample \<noteq> [] \<and> ComputePageRank (fullConfig 1)
   \<and> pageRankRun twoCyclesLibrary = TimedOut
   \<and> (case analyzeIssues twoCyclesExample (fullConfig 1) twoCyclesLibrary of
         Inl e \<Rightarrow> False
       | Inr st \<Rightarrow>
           map (map_of (pageRank st)) [''A'', ''B'', ''C'', ''D'']
             = [Some (1 / 3), Some (1 / 3), Some (1 / 3), None])"
proof -
  define a where "a = projr (NewAnalyzer twoCyclesExample)"
  define st where "st = projr (AnalyzeWithConfig a (fullConfig 1) twoCyclesLibrary)"
  have h1: "NewAnalyzer twoCyclesExample = Inr a"
    unfolding a_def by (simp add: eval_defs twoCyclesExample_def)
  have h2: "twoCyclesExample \<noteq> []"
    by (simp add: twoCyclesExample_def)
  have h3: "ComputePageRank (fullConfig 1)"
    by (simp add: fullConfig_def)
  have h4: "pageRankRun twoCyclesLibrary = TimedOut"
    by (simp add: twoCyclesLibrary_def timedOutLibrary_def)
  have h5: "AnalyzeWithConfig a (fullConfig 1) twoCyclesLibrary = Inr st"
    unfolding st_def a_def
    by (simp add: run_defs eval_defs twoCyclesExample_def twoCyclesLibrary_def)
  show ?thesis
    using pageRank_timeout_uniform [OF h1 h2 h3 h4 h5] h2 h3 h4
    by (simp add: run_defs eval_defs twoCyclesExample_def twoCyclesLibrary_def)
qed

subsection \<open>Truncation and timeout of the cycle enumeration\<close>

text \<open>
  C8, the claim as stated fails: with a cap of 1 and two cycles found, the entry that
  follows the stored cycle is \<^verbatim>\<open>["...", "CYCLES_TRUNCATED"]\<close>, which is not
  \<^verbatim>\<open>["CYCLES_TRUNCATED"]\<close>; and a negative cap makes the slice expression panic.
\<close>

theorem cycles_truncated_sentinel_counterexample:
  "map_sum id cycles (analyzeIssues twoCyclesExample (fullConfig 1) twoCyclesLibrary)
     = Inr [[''A'', ''B'', ''A''], [''...'', ''CYCLES_TRUNCATED'']]
   \<and> [''...'', ''CYCLES_TRUNCATED''] \<noteq> [''CYCLES_TRUNCATED'']
   \<and> analyzeIssues twoCyclesExample (fullConfig (- 1)) twoCyclesLibrary
       = Inl SliceBoundsOutOfRange"
  by (simp add: run_defs eval_defs twoCyclesExample_def twoCyclesLibrary_def)

text \<open>
  C8, amended. When cycle enumeration is enabled and runs (the component pre-check finds
  a component of more than one node) and the configured cap is not negative (0 stands for
  100): if the enumeration returns more cycles than the cap, the published list is the
  first cap-many cycles followed by the one entry \<^verbatim>\<open>["...", "CYCLES_TRUNCATED"]\<close>; if the
  timer fires first, the published list is exactly \<^verbatim>\<open>[["CYCLE_DETECTION_TIMEOUT"]]\<close>.
\<close>

theorem cycles_truncation_and_timeout:
  assumes "ComputeCycles config"
    and "list_ex (\<lambda>scc. length scc > 1) (sccsCycles lib)"
    and "0 \<le> MaxCyclesToStore config"
  shows "(\<forall>found. cyclesRun lib = Done found \<and> int (length found) > effectiveMaxCycles config \<longrightarrow>
            (\<exists>st. computePhase2 a config lib stats = Inr st \<and>
               cycles st = map (map (lookupID a)) (take (nat (effectiveMaxCycles config)) found)
                           @ [[''...'', ''CYCLES_TRUNCATED'']]))
       \<and> (cyclesRun lib = TimedOut \<longrightarrow>
            (\<exists>st. computePhase2 a config lib stats = Inr st \<and>
               cycles st = [[''CYCLE_DETECTION_TIMEOUT'']]))"
  using assms
  by (auto simp: computePhase2_def cyclesSection_def effectiveMaxCycles_def Let_def
           split: prod.splits)

theorem cycles_truncation_and_timeout_witness:
  "ComputeCycles (fullConfig 0)
   \<and> list_ex (\<lambda>scc. length scc > 1) (sccsCycles (timedOutLibrary [[0, 1, 2]] TimedOut))
   \<and> 0 \<le> MaxCyclesToStore (fullConfig 0)
   \<and> effectiveMaxCycles (fullConfig 0) = 100
   \<and> map_sum id cycles
        (analyzeIssues twoCyclesExample (fullConfig 0) (timedOutLibrary [[0, 1, 2]] TimedOut))
       = Inr [[''CYCLE_DETECTION_TIMEOUT'']]
   \<and> ComputeCycles (fullConfig 1)
   \<and> list_ex (\<lambda>scc. length scc > 1) (sccsCycles twoCyclesLibrary)
   \<and> 0 \<le> MaxCyclesToStore (fullConfig 1)
   \<and> cyclesRun twoCyclesLibrary = Done [[0, 1, 0], [1, 2, 1]]
   \<and> int (length [[0, 1, 0], [1, 2, 1 :: nat]]) > effectiveMaxCycles (fullConfig 1)
   \<and> map_sum id cycles (analyzeIssues twoCyclesExample (fullConfig 1) twoCyclesLibrary)
       = Inr [[''A'', ''B'', ''A''], [''...'', ''CYCLES_TRUNCATED'']]"
proof -
  have t1: "ComputeCycles (fullConfig 0)"
    and t2: "list_ex (\<lambda>scc. length scc > 1) (sccsCycles (timedOutLibrary [[0, 1, 2]] TimedOut))"
    and t3: "0 \<le> MaxCyclesToStore (fullConfig 0)"
    by (simp_all add: fullConfig_def timedOutLibrary_def)
  have u1: "ComputeCycles (fullConfig 1)"
    and u2: "list_ex (\<lambda>scc. length scc > 1) (sccsCycles twoCyclesLibrary)"
    and u3: "0 \<le> MaxCyclesToStore (fullConfig 1)"
    by (simp_all add: fullConfig_def timedOutLibrary_def twoCyclesLibrary_def)
  show ?thesis
    using cycles_truncation_and_timeout [OF t1 t2 t3] cycles_truncation_and_timeout [OF u1 u2 u3]
      t1 t2 t3 u1 u2 u3
    by (simp add: run_defs eval_defs effectiveMaxCycles_def twoCyclesExample_def
          twoCyclesLibrary_def)
qed

subsection \<open>Components, topological order and cycles\<close>

lemma compIndex_singletons:
  "list_all (\<lambda>s. length s = 1) sccs \<Longrightarrow> compIndex sccs n = posIn (concat sccs) n"
proof (induction sccs)
  case Nil
  show ?case by (simp add: compIndex_def posIn_def)
next
  case (Cons s sccs)
  then obtain y where s: "s = [y]"
    by (cases s) auto
  from Cons show ?case
    by (auto simp: s compIndex_def posIn_def)
qed

lemma posIn_less: "x \<in> set xs \<Longrightarrow> posIn xs x < length xs"
  unfolding posIn_def by (induction xs) auto

lemma posIn_nth: "x \<in> set xs \<Longrightarrow> xs ! posIn xs x = x"
  unfolding posIn_def by (induction xs) auto

lemma posIn_inj: "x \<in> set xs \<Longrightarrow> posIn xs x = posIn xs y \<Longrightarrow> y \<in> set xs \<Longrightarrow> x = y"
  using posIn_nth by metis

lemma posIn_map:
  "inj_on f (insert x (set xs)) \<Longrightarrow> posIn (map f xs) (f x) = posIn xs x"
  unfolding posIn_def
  by (induction xs) (auto simp: inj_on_def)

lemma sccs_singletons_edge_order:
  assumes ok: "sccs_ok gr sccs"
    and single: "list_all (\<lambda>s. length s = 1) sccs"
    and noself: "\<forall>u. (u, u) \<notin> set (edges gr)"
    and bound: "\<forall>(u, v) \<in> set (edges gr). u \<in> set (nodes gr) \<and> v \<in> set (nodes gr)"
    and e: "(u, v) \<in> set (edges gr)"
  shows "posIn (concat sccs) v < posIn (concat sccs) u"
proof -
  from ok e have le: "compIndex sccs v \<le> compIndex sccs u"
    by (auto simp: sccs_ok_def)
  from ok bound e have mem: "u \<in> set (concat sccs)" "v \<in> set (concat sccs)"
    unfolding sccs_ok_def by blast+
  from e noself have "u \<noteq> v" by auto
  with mem posIn_inj [of v "concat sccs" u] have "posIn (concat sccs) v \<noteq> posIn (concat sccs) u"
    by auto
  with le single show ?thesis
    by (simp add: compIndex_singletons)
qed

lemma sccs_singletons_acyclic:
  assumes "sccs_ok gr sccs"
    and "list_all (\<lambda>s. length s = 1) sccs"
    and "\<forall>u. (u, u) \<notin> set (edges gr)"
    and "\<forall>(u, v) \<in> set (edges gr). u \<in> set (nodes gr) \<and> v \<in> set (nodes gr)"
  shows "acyclic (set (edges gr))"
  by (rule acyclicI_order [where f = "posIn (concat sccs)"])
     (rule sccs_singletons_edge_order [OF assms])

lemma sccs_component_cyclic:
  assumes ok: "sccs_ok gr sccs"
    and multi: "\<not> list_all (\<lambda>s. length s = 1) sccs"
  shows "\<not> acyclic (set (edges gr))"
proof -
  from multi obtain s where s: "s \<in> set sccs" "length s \<noteq> 1"
    by (auto simp: list_all_iff)
  from ok s have "s \<noteq> []" by (auto simp: sccs_ok_def)
  with s(2) obtain u v rest where sv: "s = u # v # rest"
    by (metis length_Cons list.exhaust list.size(3) One_nat_def)
  from ok have "distinct (concat sccs)" by (simp add: sccs_ok_def)
  with s(1) have "distinct s"
    by (metis distinct_concat_iff)
  with sv have "u \<noteq> v" by auto
  from ok s(1) sv have "(u, v) \<in> (set (edges gr))\<^sup>*" "(v, u) \<in> (set (edges gr))\<^sup>*"
    by (auto simp: sccs_ok_def)
  with \<open>u \<noteq> v\<close> have "(u, v) \<in> (set (edges gr))\<^sup>+" "(v, u) \<in> (set (edges gr))\<^sup>+"
    by (auto simp: rtrancl_eq_or_trancl)
  then have "(u, u) \<in> (set (edges gr))\<^sup>+" by (rule trancl_trans)
  then show ?thesis by (auto simp: acyclic_def)
qed

lemma sccs_hasCycles:
  assumes "sccs_ok gr sccs"
  shows "list_ex (\<lambda>scc. length scc > 1) sccs \<longleftrightarrow> \<not> list_all (\<lambda>s. length s = 1) sccs"
proof -
  have "(length s > 1) = (length s \<noteq> 1)" if "s \<in> set sccs" for s
  proof -
    from assms that have "s \<noteq> []" by (auto simp: sccs_ok_def)
    then have "length s \<noteq> 0" by simp
    then show ?thesis by arith
  qed
  then show ?thesis
    unfolding list_ex_iff list_all_iff by blast
qed

lemma degreeLoop_TopologicalOrder:
  "TopologicalOrder (degreeLoop a ns stats) = TopologicalOrder stats"
  by (induction ns arbitrary: stats) (simp_all add: Let_def)

lemma computePhase1_TopologicalOrder:
  "TopologicalOrder (computePhase1 a lib stats) =
     (case Sort (sortPhase1 lib) of
        None \<Rightarrow> TopologicalOrder stats
      | Some sortedNodes \<Rightarrow> TopologicalOrder stats @ map (lookupID a) (rev sortedNodes))"
  by (simp add: computePhase1_def Let_def degreeLoop_TopologicalOrder split: option.splits)

lemma computePhase2_fields:
  assumes "computePhase2 a config lib stats = Inr st"
  shows "TopologicalOrder st = TopologicalOrder stats"
    and "InDegree st = InDegree stats"
    and "OutDegree st = OutDegree stats"
    and "cyclesSection a config lib = Inr (cycles st)"
    and "criticalPathScore st = criticalPathSection a config lib"
  using assms
  by (auto simp: computePhase2_def Let_def split: prod.splits sum.splits)

lemma AnalyzeWithConfig_nonempty:
  assumes "AnalyzeWithConfig a config lib = Inr st" and "issueMap a \<noteq> []"
  shows "computePhase2 a config lib (computePhase1 a lib (newGraphStats a config)) = Inr st"
  using assms by (simp add: AnalyzeWithConfig_def Let_def newGraphStats_def)

lemma AnalyzeWithConfig_TopologicalOrder:
  assumes "AnalyzeWithConfig a config lib = Inr st" and "issueMap a \<noteq> []"
  shows "TopologicalOrder st =
     (case Sort (sortPhase1 lib) of
        None \<Rightarrow> []
      | Some sortedNodes \<Rightarrow> map (lookupID a) (rev sortedNodes))"
  using computePhase2_fields(1) [OF AnalyzeWithConfig_nonempty [OF assms]]
  by (simp add: computePhase1_TopologicalOrder newGraphStats_def split: option.splits)

lemma cyclesSection_nonempty:
  assumes "cyclesSection a config lib = Inr cs"
    and "ComputeCycles config"
    and "list_ex (\<lambda>scc. length scc > 1) (sccsCycles lib)"
    and "cyclesRun lib = Done found"
    and "found \<noteq> []"
  shows "cs \<noteq> []"
  using assms
  by (auto simp: cyclesSection_def Let_def split: if_splits)

lemma appearsBefore_map:
  assumes "inj_on f (set xs)" and "x \<in> set xs" and "y \<in> set xs"
    and "posIn xs x < posIn xs y"
  shows "appearsBefore (map f xs) (f x) (f y)"
proof -
  have ix: "inj_on f (insert x (set xs))" "inj_on f (insert y (set xs))"
    using assms(1-3) by (simp_all add: insert_absorb)
  show ?thesis
    using assms(3,4) posIn_less [of y xs]
    by (simp add: appearsBefore_def posIn_map [OF ix(1)] posIn_map [OF ix(2)])
qed

subsection \<open>The examples\<close>

lemma chain_graph:
  "NewAnalyzer chainExample = Inr (projr (NewAnalyzer chainExample))"
  "g (projr (NewAnalyzer chainExample)) = \<lparr>nodes = [0, 1, 2], edges = [(0, 1), (1, 2)]\<rparr>"
  by (simp_all add: eval_defs chainExample_def)

lemma chain_sccs: "sccs_ok \<lparr>nodes = [0, 1, 2], edges = [(0, 1), (1, 2)]\<rparr> [[2], [1], [0]]"
  by (auto simp: sccs_ok_def compIndex_def)

lemma chain_acyclic: "acyclic (set [(0, 1), (1, 2 :: nat)])"
  by (rule acyclicI_order [where f = "\<lambda>n. 2 - n"]) auto

lemma two_graph:
  "NewAnalyzer twoCyclesExample = Inr (projr (NewAnalyzer twoCyclesExample))"
  "g (projr (NewAnalyzer twoCyclesExample))
     = \<lparr>nodes = [0, 1, 2], edges = [(0, 1), (1, 0), (1, 2), (2, 1)]\<rparr>"
  by (simp_all add: eval_defs twoCyclesExample_def)

lemma two_sccs:
  "sccs_ok \<lparr>nodes = [0, 1, 2], edges = [(0, 1), (1, 0), (1, 2), (2, 1)]\<rparr> [[0, 1, 2]]"
proof -
  let ?E = "{(0, 1), (1, 0), (1, 2), (2, 1)} :: (nat \<times> nat) set"
  have e: "(0, 1) \<in> ?E" "(1, 0) \<in> ?E" "(1, 2) \<in> ?E" "(2, 1) \<in> ?E" by simp_all
  have "(0, 2) \<in> ?E\<^sup>*" using e(1,3) by (meson r_into_rtrancl rtrancl_trans)
  moreover have "(2, 0) \<in> ?E\<^sup>*" using e(4,2) by (meson r_into_rtrancl rtrancl_trans)
  moreover have "(0, 1) \<in> ?E\<^sup>*" "(1, 0) \<in> ?E\<^sup>*" "(1, 2) \<in> ?E\<^sup>*" "(2, 1) \<in> ?E\<^sup>*"
    using e by (meson r_into_rtrancl)+
  ultimately show ?thesis
    by (simp add: sccs_ok_def compIndex_def)
qed

lemma two_cyclic: "\<not> acyclic (set [(0, 1), (1, 0), (1, 2), (2, 1 :: nat)])"
proof -
  let ?E = "set [(0, 1), (1, 0), (1, 2), (2, 1 :: nat)]"
  have "(0, 1) \<in> ?E" "(1, 0) \<in> ?E" by simp_all
  then have "(0, 0) \<in> ?E\<^sup>+" by (meson r_into_trancl' trancl_trans)
  then show ?thesis unfolding acyclic_def by blast
qed

subsection \<open>Topological order\<close>

text \<open>
  C3, the claim as stated fails: for the empty input the graph has no edge, hence no
  cycle, and \<^verbatim>\<open>TopologicalOrder\<close> is empty (\<^verbatim>\<open>AnalyzeAsyncWithConfig\<close> returns before
  phase 1 when there is no issue).
\<close>

theorem topologicalOrder_empty_input_counterexample:
  "map_sum id TopologicalOrder
      (analyzeIssues [] (fullConfig 0) (timedOutLibrary [] (Done []))) = Inr []
   \<and> map_sum id (\<lambda>a. edges (g a)) (NewAnalyzer []) = Inr []
   \<and> acyclic (set ([] :: (nat \<times> nat) list))"
  by (simp add: run_defs eval_defs acyclic_def)

text \<open>
  C3, amended. For every non-empty input with distinct ids from which \<^verbatim>\<open>NewAnalyzer\<close>
  builds a graph, and every run whose component lists and cycle list are results the
  library may return: \<^verbatim>\<open>TopologicalOrder\<close> is non-empty iff the graph is acyclic; when it
  is acyclic the order lists every id of the input once and, for every edge from \<open>u\<close> to
  \<open>v\<close>, the id of \<open>v\<close> before the id of \<open>u\<close>; when the graph has a cycle the order is empty
  and the published cycle list, if the enumeration is enabled and does not time out, is
  non-empty.
\<close>

theorem topologicalOrder_acyclic:
  assumes a: "NewAnalyzer issues = Inr a"
    and ne: "issues \<noteq> []"
    and d: "distinct (map ID issues)"
    and ok1: "sccs_ok (g a) (sortPhase1 lib)"
    and ok3: "sccs_ok (g a) (sccsCycles lib)"
    and cyc: "\<forall>found. cyclesRun lib = Done found \<longrightarrow> cycles_ok (g a) found"
    and st: "AnalyzeWithConfig a config lib = Inr st"
  shows "(TopologicalOrder st \<noteq> [] \<longleftrightarrow> acyclic (set (edges (g a))))
       \<and> (acyclic (set (edges (g a))) \<longrightarrow>
            distinct (TopologicalOrder st)
            \<and> set (TopologicalOrder st) = ID ` set issues
            \<and> length (TopologicalOrder st) = length issues
            \<and> (\<forall>(u, v) \<in> set (edges (g a)).
                  appearsBefore (TopologicalOrder st) (lookupID a v) (lookupID a u)))
       \<and> (\<not> acyclic (set (edges (g a))) \<longrightarrow>
            TopologicalOrder st = []
            \<and> (ComputeCycles config \<and> cyclesRun lib \<noteq> TimedOut \<longrightarrow> cycles st \<noteq> []))"
proof -
  let ?sccs = "sortPhase1 lib"
  let ?E = "set (edges (g a))"
  note nodes = NewAnalyzer_Inr(1) [OF a]
  note noself = NewAnalyzer_Inr(4) [OF a]
  note bound = NewAnalyzer_edges_bound [OF a]
  note inj = NewAnalyzer_lookupID_inj [OF a d]
  have im: "issueMap a \<noteq> []" by (rule NewAnalyzer_issueMap_nonempty [OF a ne])
  note to = AnalyzeWithConfig_TopologicalOrder [OF st im]
  have cset: "set (concat ?sccs) = set (nodes (g a))" and cdist: "distinct (concat ?sccs)"
    using ok1 by (simp_all add: sccs_ok_def)
  show ?thesis
  proof (cases "list_all (\<lambda>s. length s = 1) ?sccs")
    case True
    have ac: "acyclic ?E"
      by (rule sccs_singletons_acyclic [OF ok1 True noself bound])
    have to': "TopologicalOrder st = map (lookupID a) (concat ?sccs)"
      using to True by (simp add: Sort_def)
    have inj': "inj_on (lookupID a) (set (concat ?sccs))"
      using inj cset by simp
    have "0 \<in> set (nodes (g a))" using nodes ne by simp
    then have "0 \<in> set (concat ?sccs)"
      by (simp only: cset)
    then have "concat ?sccs \<noteq> []"
      by (metis empty_iff empty_set)
    then have p1: "TopologicalOrder st \<noteq> []" by (simp add: to')
    have p2: "distinct (TopologicalOrder st)"
      using cdist inj' by (simp add: to' distinct_map)
    have "set (TopologicalOrder st) = lookupID a ` set [0..<length issues]"
      by (simp only: to' set_map cset nodes)
    also have "\<dots> = set (map (lookupID a) [0..<length issues])"
      by (simp only: set_map)
    also have "\<dots> = ID ` set issues"
      by (simp only: NewAnalyzer_lookupID_map [OF a] set_map)
    finally have p3: "set (TopologicalOrder st) = ID ` set issues" .
    have "length (concat ?sccs) = card (set (concat ?sccs))"
      using cdist by (simp only: distinct_card)
    also have "\<dots> = length issues"
      by (simp only: cset nodes) simp
    finally have p4: "length (TopologicalOrder st) = length issues"
      by (simp only: to' length_map)
    have p5: "appearsBefore (TopologicalOrder st) (lookupID a v) (lookupID a u)"
      if e: "(u, v) \<in> ?E" for u v
    proof -
      from bound e cset have mem: "u \<in> set (concat ?sccs)" "v \<in> set (concat ?sccs)"
        by auto
      have "posIn (concat ?sccs) v < posIn (concat ?sccs) u"
        by (rule sccs_singletons_edge_order [OF ok1 True noself bound e])
      then show ?thesis
        unfolding to' by (rule appearsBefore_map [OF inj' mem(2) mem(1)])
    qed
    from ac p1 p2 p3 p4 p5 show ?thesis by auto
  next
    case False
    have nac: "\<not> acyclic ?E"
      by (rule sccs_component_cyclic [OF ok1 False])
    have to': "TopologicalOrder st = []"
      using to False by (simp add: Sort_def)
    have "cycles st \<noteq> []" if en: "ComputeCycles config" and run: "cyclesRun lib \<noteq> TimedOut"
    proof -
      from run obtain found where found: "cyclesRun lib = Done found"
        by (cases "cyclesRun lib") auto
      with cyc nac have "found \<noteq> []" by (auto simp: cycles_ok_def)
      have "\<not> list_all (\<lambda>s. length s = 1) (sccsCycles lib)"
        using sccs_singletons_acyclic [OF ok3 _ noself bound] nac by blast
      then have has: "list_ex (\<lambda>scc. length scc > 1) (sccsCycles lib)"
        using sccs_hasCycles [OF ok3] by simp
      have "cyclesSection a config lib = Inr (cycles st)"
        by (rule computePhase2_fields(4) [OF AnalyzeWithConfig_nonempty [OF st im]])
      then show ?thesis
        by (rule cyclesSection_nonempty [OF _ en has found \<open>found \<noteq> []\<close>])
    qed
    with nac to' show ?thesis by auto
  qed
qed

theorem topologicalOrder_acyclic_witness:
  "chainExample \<noteq> [] \<and> distinct (map ID chainExample)
   \<and> map_sum id (\<lambda>a. acyclic (set (edges (g a)))) (NewAnalyzer chainExample) = Inr True
   \<and> map_sum id (\<lambda>st. (TopologicalOrder st, cycles st))
        (analyzeIssues chainExample (fullConfig 0) chainLibrary)
       = Inr ([''C'', ''B'', ''A''], [])
   \<and> twoCyclesExample \<noteq> [] \<and> distinct (map ID twoCyclesExample)
   \<and> map_sum id (\<lambda>a. acyclic (set (edges (g a)))) (NewAnalyzer twoCyclesExample) = Inr False
   \<and> map_sum id (\<lambda>st. (TopologicalOrder st, cycles st))
        (analyzeIssues twoCyclesExample (fullConfig 0) twoCyclesLibrary)
       = Inr ([], [[''A'', ''B'', ''A''], [''B'', ''C'', ''B'']])"
proof -
  define a where "a = projr (NewAnalyzer chainExample)"
  define st where "st = projr (AnalyzeWithConfig a (fullConfig 0) chainLibrary)"
  define b where "b = projr (NewAnalyzer twoCyclesExample)"
  define su where "su = projr (AnalyzeWithConfig b (fullConfig 0) twoCyclesLibrary)"
  have a1: "NewAnalyzer chainExample = Inr a"
    and ga: "g a = \<lparr>nodes = [0, 1, 2], edges = [(0, 1), (1, 2)]\<rparr>"
    unfolding a_def by (rule chain_graph)+
  have b1: "NewAnalyzer twoCyclesExample = Inr b"
    and gb: "g b = \<lparr>nodes = [0, 1, 2], edges = [(0, 1), (1, 0), (1, 2), (2, 1)]\<rparr>"
    unfolding b_def by (rule two_graph)+
  have a2: "chainExample \<noteq> []" and a3: "distinct (map ID chainExample)"
    by (simp_all add: chainExample_def mkIssue_def)
  have b2: "twoCyclesExample \<noteq> []" and b3: "distinct (map ID twoCyclesExample)"
    by (simp_all add: twoCyclesExample_def mkIssue_def)
  have a4: "sccs_ok (g a) (sortPhase1 chainLibrary)"
    and a5: "sccs_ok (g a) (sccsCycles chainLibrary)"
    using chain_sccs by (simp_all add: ga chainLibrary_def timedOutLibrary_def)
  have b4: "sccs_ok (g b) (sortPhase1 twoCyclesLibrary)"
    and b5: "sccs_ok (g b) (sccsCycles twoCyclesLibrary)"
    using two_sccs by (simp_all add: gb twoCyclesLibrary_def timedOutLibrary_def)
  have a6: "\<forall>found. cyclesRun chainLibrary = Done found \<longrightarrow> cycles_ok (g a) found"
    using chain_acyclic by (simp add: ga chainLibrary_def timedOutLibrary_def cycles_ok_def)
  have b6: "\<forall>found. cyclesRun twoCyclesLibrary = Done found \<longrightarrow> cycles_ok (g b) found"
    by (simp add: gb twoCyclesLibrary_def timedOutLibrary_def cycles_ok_def cyclePath_def)
  have a7: "AnalyzeWithConfig a (fullConfig 0) chainLibrary = Inr st"
    unfolding st_def a_def
    by (simp add: run_defs eval_defs chainExample_def chainLibrary_def)
  have b7: "AnalyzeWithConfig b (fullConfig 0) twoCyclesLibrary = Inr su"
    unfolding su_def b_def
    by (simp add: run_defs eval_defs twoCyclesExample_def twoCyclesLibrary_def)
  have res: "map_sum id (\<lambda>st. (TopologicalOrder st, cycles st))
        (analyzeIssues chainExample (fullConfig 0) chainLibrary)
       = Inr ([''C'', ''B'', ''A''], [])"
    "map_sum id (\<lambda>st. (TopologicalOrder st, cycles st))
        (analyzeIssues twoCyclesExample (fullConfig 0) twoCyclesLibrary)
       = Inr ([], [[''A'', ''B'', ''A''], [''B'', ''C'', ''B'']])"
    by (simp_all add: run_defs eval_defs chainExample_def chainLibrary_def
          twoCyclesExample_def twoCyclesLibrary_def)
  show ?thesis
    using topologicalOrder_acyclic [OF a1 a2 a3 a4 a5 a6 a7]
      topologicalOrder_acyclic [OF b1 b2 b3 b4 b5 b6 b7]
      a2 a3 b2 b3 res chain_acyclic two_cyclic
    by (simp add: a1 b1 ga gb)
qed

subsection \<open>Critical-path depth\<close>

lemma heightsMap_append:
  "heightsMap gr (xs @ ys) hs = heightsMap gr ys (heightsMap gr xs hs)"
  by (induction xs arbitrary: hs) simp_all

lemma heightsMap_frame: "n \<notin> set todo \<Longrightarrow> heightsMap gr todo hs n = hs n"
  by (induction todo arbitrary: hs) simp_all

lemma heightsMap_at:
  assumes "distinct (pre @ n # post)"
  shows "heightsMap gr (pre @ n # post) hs n
           = Some (1 + maxParentHeight (heightsMap gr pre hs) (To gr n))"
  using assms by (simp add: heightsMap_append heightsMap_frame)

lemma heightsMap_prefix:
  assumes "distinct (pre @ post)" and "p \<in> set pre"
  shows "heightsMap gr (pre @ post) hs p = heightsMap gr pre hs p"
proof -
  from assms have "p \<notin> set post" by auto
  then show ?thesis by (simp add: heightsMap_append heightsMap_frame)
qed

lemma maxParentHeight_foldl_cong:
  "\<forall>p \<in> set ps. hs p = hs' p \<Longrightarrow>
     foldl (\<lambda>mx p. case hs p of None \<Rightarrow> mx | Some h \<Rightarrow> if h > mx then h else mx) acc ps
       = foldl (\<lambda>mx p. case hs' p of None \<Rightarrow> mx | Some h \<Rightarrow> if h > mx then h else mx) acc ps"
  by (induction ps arbitrary: acc) simp_all

lemma maxParentHeight_cong:
  "\<forall>p \<in> set ps. hs p = hs' p \<Longrightarrow> maxParentHeight hs ps = maxParentHeight hs' ps"
  unfolding maxParentHeight_def by (rule maxParentHeight_foldl_cong)

lemma finite_heights: "finite {h. \<exists>p \<in> set ps. hs p = Some h}"
proof -
  have "{h. \<exists>p \<in> set ps. hs p = Some h} \<subseteq> (\<lambda>p. the (hs p)) ` set ps"
    by force
  then show ?thesis by (rule finite_subset) simp
qed

lemma maxParentHeight_foldl_Max:
  "foldl (\<lambda>mx p. case hs p of None \<Rightarrow> mx | Some h \<Rightarrow> if h > mx then h else mx) acc ps
     = Max (insert acc {h::real. \<exists>p \<in> set ps. hs p = Some h})"
proof (induction ps arbitrary: acc)
  case Nil
  show ?case by simp
next
  case (Cons p ps)
  have fin: "finite {h. \<exists>q \<in> set ps. hs q = Some h}" by (rule finite_heights)
  show ?case
  proof (cases "hs p")
    case None
    then have "{h. \<exists>q \<in> set (p # ps). hs q = Some h} = {h. \<exists>q \<in> set ps. hs q = Some h}"
      by auto
    with None Cons.IH [of acc] show ?thesis by simp
  next
    case (Some h)
    then have eq: "{k. \<exists>q \<in> set (p # ps). hs q = Some k}
        = insert h {k. \<exists>q \<in> set ps. hs q = Some k}"
      by auto
    have "Max (insert (if h > acc then h else acc) {k. \<exists>q \<in> set ps. hs q = Some k})
        = Max (insert acc (insert h {k. \<exists>q \<in> set ps. hs q = Some k}))"
    proof (cases "h > acc")
      case True
      have "Max (insert acc (insert h {k. \<exists>q \<in> set ps. hs q = Some k}))
          = max acc (Max (insert h {k. \<exists>q \<in> set ps. hs q = Some k}))"
        using fin by (simp del: Max_insert add: Max_insert [of "insert h _"])
      also have "\<dots> = Max (insert h {k. \<exists>q \<in> set ps. hs q = Some k})"
      proof -
        have "h \<le> Max (insert h {k. \<exists>q \<in> set ps. hs q = Some k})"
          using fin by (intro Max_ge) simp_all
        with True show ?thesis by (simp add: max_def)
      qed
      finally show ?thesis using True by simp
    next
      case False
      then have "h \<le> acc" by simp
      have "Max (insert acc (insert h {k. \<exists>q \<in> set ps. hs q = Some k}))
          = Max (insert h (insert acc {k. \<exists>q \<in> set ps. hs q = Some k}))"
        by (simp add: insert_commute)
      also have "\<dots> = max h (Max (insert acc {k. \<exists>q \<in> set ps. hs q = Some k}))"
        using fin by (simp del: Max_insert add: Max_insert [of "insert acc _"])
      also have "\<dots> = Max (insert acc {k. \<exists>q \<in> set ps. hs q = Some k})"
      proof -
        have "acc \<le> Max (insert acc {k. \<exists>q \<in> set ps. hs q = Some k})"
          using fin by (intro Max_ge) simp_all
        with \<open>h \<le> acc\<close> show ?thesis by (simp add: max_def)
      qed
      finally show ?thesis using False by simp
    qed
    with Some Cons.IH [of "if h > acc then h else acc"] eq show ?thesis by simp
  qed
qed

lemma maxParentHeight_Max:
  "maxParentHeight hs ps = Max (insert 0 {h. \<exists>p \<in> set ps. hs p = Some h})"
  unfolding maxParentHeight_def by (rule maxParentHeight_foldl_Max)

lemma heightsLoop_invariant:
  assumes "inj_on (lookupID a) (S \<union> set todo)"
    and "distinct todo"
    and "set todo \<inter> S = {}"
    and "\<forall>n \<in> S. map_of imp (lookupID a n) = hs n"
  shows "\<forall>n \<in> S \<union> set todo.
           map_of (heightsLoop a todo hs imp) (lookupID a n) = heightsMap (g a) todo hs n"
  using assms
proof (induction todo arbitrary: hs imp S)
  case Nil
  then show ?case by simp
next
  case (Cons n rest)
  let ?h = "1 + maxParentHeight hs (To (g a) n)"
  have "\<forall>m \<in> insert n S.
          map_of (AList.update (lookupID a n) ?h imp) (lookupID a m) = (hs(n \<mapsto> ?h)) m"
  proof
    fix m assume m: "m \<in> insert n S"
    show "map_of (AList.update (lookupID a n) ?h imp) (lookupID a m) = (hs(n \<mapsto> ?h)) m"
    proof (cases "m = n")
      case True
      then show ?thesis by (simp add: update_conv')
    next
      case False
      with m have mS: "m \<in> S" by simp
      with Cons.prems(1) False have "lookupID a m \<noteq> lookupID a n"
        by (auto simp: inj_on_def)
      with False mS Cons.prems(4) show ?thesis by (simp add: update_conv')
    qed
  qed
  moreover have "inj_on (lookupID a) (insert n S \<union> set rest)"
    using Cons.prems(1) by simp
  moreover have "distinct rest" "set rest \<inter> insert n S = {}"
    using Cons.prems(2,3) by auto
  ultimately have "\<forall>m \<in> insert n S \<union> set rest.
      map_of (heightsLoop a rest (hs(n \<mapsto> ?h)) (AList.update (lookupID a n) ?h imp))
        (lookupID a m) = heightsMap (g a) rest (hs(n \<mapsto> ?h)) m"
    by (intro Cons.IH) 
  then show ?case by (simp add: Let_def)
qed

lemma heightsLoop_keys:
  "fst ` set (heightsLoop a todo hs imp) = fst ` set imp \<union> lookupID a ` set todo"
  by (induction todo arbitrary: hs imp) (auto simp: Let_def dom_update)

lemma sorted_preds_in_prefix:
  assumes ok: "sccs_ok gr sccs"
    and single: "list_all (\<lambda>s. length s = 1) sccs"
    and noself: "\<forall>u. (u, u) \<notin> set (edges gr)"
    and bound: "\<forall>(u, v) \<in> set (edges gr). u \<in> set (nodes gr) \<and> v \<in> set (nodes gr)"
    and split: "rev (concat sccs) = pre @ n # post"
    and e: "(p, n) \<in> set (edges gr)"
  shows "p \<in> set pre"
proof -
  let ?cs = "concat sccs"
  let ?L = "length ?cs"
  let ?i = "posIn ?cs p"
  let ?j = "posIn ?cs n"
  have dist: "distinct ?cs" and cset: "set ?cs = set (nodes gr)"
    using ok by (simp_all add: sccs_ok_def)
  from bound e cset have mem: "p \<in> set ?cs" "n \<in> set ?cs" by auto
  have lt: "?j < ?i"
    by (rule sccs_singletons_edge_order [OF ok single noself bound e])
  have iL: "?i < ?L" by (rule posIn_less [OF mem(1)])
  have jL: "?j < ?L" using lt iL by simp
  have rp: "rev ?cs ! (?L - Suc ?i) = p"
    using iL posIn_nth [OF mem(1)] by (simp add: rev_nth)
  have rn: "rev ?cs ! (?L - Suc ?j) = n"
    using jL posIn_nth [OF mem(2)] by (simp add: rev_nth)
  have "rev ?cs ! length pre = n" by (simp add: split)
  moreover have "length pre < length (rev ?cs)" by (simp add: split)
  moreover have "?L - Suc ?j < length (rev ?cs)" using jL by simp
  moreover have "distinct (rev ?cs)" using dist by simp
  ultimately have "length pre = ?L - Suc ?j"
    using rn by (metis nth_eq_iff_index_eq)
  with lt iL have "?L - Suc ?i < length pre" by simp
  then have "rev ?cs ! (?L - Suc ?i) = pre ! (?L - Suc ?i)"
    by (simp add: split nth_append)
  with rp \<open>?L - Suc ?i < length pre\<close> show ?thesis
    by (metis nth_mem)
qed

lemma set_To: "set (To gr n) = {p. (p, n) \<in> set (edges gr)}"
  by (auto simp: To_def image_iff)

lemma computeHeights_rel:
  assumes "inj_on (lookupID a) (set xs)" and "distinct xs" and "m \<in> set xs"
  shows "map_of (computeHeights a xs) (lookupID a m) = heightsMap (g a) xs Map.empty m"
  using heightsLoop_invariant [of a "{}" xs "[]" Map.empty] assms
  by (simp add: computeHeights_def)

lemma computeHeights_recurrence:
  assumes ok: "sccs_ok (g a) sccs"
    and single: "list_all (\<lambda>s. length s = 1) sccs"
    and noself: "\<forall>u. (u, u) \<notin> set (edges (g a))"
    and bound: "\<forall>(u, v) \<in> set (edges (g a)). u \<in> set (nodes (g a)) \<and> v \<in> set (nodes (g a))"
    and inj: "inj_on (lookupID a) (set (nodes (g a)))"
    and n: "n \<in> set (nodes (g a))"
  shows "map_of (computeHeights a (rev (concat sccs))) (lookupID a n)
       = Some (1 + Max (insert 0 {h. \<exists>p. (p, n) \<in> set (edges (g a)) \<and>
                  map_of (computeHeights a (rev (concat sccs))) (lookupID a p) = Some h}))"
proof -
  let ?xs = "rev (concat sccs)"
  let ?H = "heightsMap (g a) ?xs Map.empty"
  have dist: "distinct ?xs" and xset: "set ?xs = set (nodes (g a))"
    using ok by (simp_all add: sccs_ok_def)
  have inj': "inj_on (lookupID a) (set ?xs)"
    using inj by (simp only: xset)
  have rel: "map_of (computeHeights a ?xs) (lookupID a m) = ?H m" if "m \<in> set (nodes (g a))" for m
  proof -
    from that have "m \<in> set ?xs" by (simp only: xset)
    then show ?thesis by (rule computeHeights_rel [OF inj' dist])
  qed
  from n xset obtain pre post where split: "?xs = pre @ n # post"
    by (metis split_list)
  have preds: "set (To (g a) n) \<subseteq> set pre"
    using sorted_preds_in_prefix [OF ok single noself bound split] by (auto simp: set_To)
  have "?H n = Some (1 + maxParentHeight (heightsMap (g a) pre Map.empty) (To (g a) n))"
    using dist unfolding split by (rule heightsMap_at)
  also have "maxParentHeight (heightsMap (g a) pre Map.empty) (To (g a) n)
      = maxParentHeight ?H (To (g a) n)"
  proof (rule maxParentHeight_cong, rule ballI)
    fix p assume "p \<in> set (To (g a) n)"
    with preds have "p \<in> set pre" by auto
    with dist show "heightsMap (g a) pre Map.empty p = ?H p"
      unfolding split by (simp add: heightsMap_prefix [of pre "n # post"])
  qed
  also have "\<dots> = Max (insert 0 {h. \<exists>p \<in> set (To (g a) n). ?H p = Some h})"
    by (rule maxParentHeight_Max)
  also have "{h. \<exists>p \<in> set (To (g a) n). ?H p = Some h}
      = {h. \<exists>p. (p, n) \<in> set (edges (g a)) \<and>
             map_of (computeHeights a ?xs) (lookupID a p) = Some h}"
  proof -
    have "map_of (computeHeights a ?xs) (lookupID a p) = ?H p"
      if "(p, n) \<in> set (edges (g a))" for p
      using bound that by (intro rel) auto
    then show ?thesis unfolding set_To by auto
  qed
  finally show ?thesis using rel [OF n] by simp
qed

text \<open>
  C4. When the critical-path computation is enabled, for an input with distinct ids from
  which \<^verbatim>\<open>NewAnalyzer\<close> builds a graph: if the graph is acyclic, the published map gives
  every issue \<open>v\<close> the depth 1 plus the maximum of the depths of the issues \<open>u\<close> with an
  edge from \<open>u\<close> to \<open>v\<close> (0 when there is none), so an issue with no incoming edge has
  depth 1; if the graph has a cycle, the published map is empty.
\<close>

theorem criticalPath_depth:
  assumes a: "NewAnalyzer issues = Inr a"
    and d: "distinct (map ID issues)"
    and ok2: "sccs_ok (g a) (sortPhase2 lib)"
    and en: "ComputeCriticalPath config"
    and st: "AnalyzeWithConfig a config lib = Inr st"
  shows "(acyclic (set (edges (g a))) \<longrightarrow>
            (\<forall>v \<in> set issues.
               map_of (criticalPathScore st) (ID v)
                 = Some (1 + Max (insert 0 {h. \<exists>u \<in> set issues. blocksOn u v \<and>
                                    map_of (criticalPathScore st) (ID u) = Some h}))
               \<and> ((\<forall>u \<in> set issues. \<not> blocksOn u v) \<longrightarrow>
                    map_of (criticalPathScore st) (ID v) = Some 1)))
       \<and> (\<not> acyclic (set (edges (g a))) \<longrightarrow> criticalPathScore st = [])"
proof (cases "issues = []")
  case True
  have "set (edges (g a)) = {}"
    using NewAnalyzer_Inr(2) [OF a] True by simp
  then have "acyclic (set (edges (g a)))"
    by (simp add: acyclic_def)
  with True show ?thesis by simp
next
  case False
  let ?sccs = "sortPhase2 lib"
  let ?E = "set (edges (g a))"
  let ?cps = "criticalPathScore st"
  note nodes = NewAnalyzer_Inr(1) [OF a]
  note noself = NewAnalyzer_Inr(4) [OF a]
  note bound = NewAnalyzer_edges_bound [OF a]
  note inj = NewAnalyzer_lookupID_inj [OF a d]
  have im: "issueMap a \<noteq> []" by (rule NewAnalyzer_issueMap_nonempty [OF a False])
  have cps: "?cps = (case Sort ?sccs of None \<Rightarrow> [] | Some s \<Rightarrow> computeHeights a s)"
    using computePhase2_fields(5) [OF AnalyzeWithConfig_nonempty [OF st im]] en
    by (simp add: criticalPathSection_def)
  show ?thesis
  proof (cases "list_all (\<lambda>s. length s = 1) ?sccs")
    case single: True
    have ac: "acyclic ?E"
      by (rule sccs_singletons_acyclic [OF ok2 single noself bound])
    have cps': "?cps = computeHeights a (rev (concat ?sccs))"
      using cps single by (simp add: Sort_def)
    have main: "map_of ?cps (ID v)
        = Some (1 + Max (insert 0 {h. \<exists>u \<in> set issues. blocksOn u v \<and>
                           map_of ?cps (ID u) = Some h}))"
      if v: "v \<in> set issues" for v
    proof -
      from v obtain j where j: "j < length issues" "issues ! j = v"
        by (auto simp: in_set_conv_nth)
      have jn: "j \<in> set (nodes (g a))" using j nodes by simp
      have idj: "lookupID a j = ID v"
        using NewAnalyzer_lookupID [OF a j(1)] j(2) by simp
      have sets: "{h. \<exists>p. (p, j) \<in> ?E \<and> map_of ?cps (lookupID a p) = Some h}
          = {h. \<exists>u \<in> set issues. blocksOn u v \<and> map_of ?cps (ID u) = Some h}"
        (is "?A = ?B")
      proof (rule set_eqI, rule iffI)
        fix h assume "h \<in> ?A"
        then obtain p where p: "(p, j) \<in> ?E" "map_of ?cps (lookupID a p) = Some h" by auto
        from bound p(1) nodes have pl: "p < length issues" by auto
        have "blocksOn (issues ! p) v"
          using NewAnalyzer_edge_iff [OF a d pl j(1)] p(1) j(2) by simp
        moreover have "map_of ?cps (ID (issues ! p)) = Some h"
          using p(2) NewAnalyzer_lookupID [OF a pl] by simp
        ultimately show "h \<in> ?B"
          using pl by (auto intro!: bexI [of _ "issues ! p"])
      next
        fix h assume "h \<in> ?B"
        then obtain u where u: "u \<in> set issues" "blocksOn u v" "map_of ?cps (ID u) = Some h"
          by auto
        from u(1) obtain p where p: "p < length issues" "issues ! p = u"
          by (auto simp: in_set_conv_nth)
        have "(p, j) \<in> ?E"
          using NewAnalyzer_edge_iff [OF a d p(1) j(1)] u(2) p(2) j(2) by simp
        moreover have "map_of ?cps (lookupID a p) = Some h"
          using u(3) NewAnalyzer_lookupID [OF a p(1)] p(2) by simp
        ultimately show "h \<in> ?A" by auto
      qed
      show ?thesis
        using computeHeights_recurrence [OF ok2 single noself bound inj jn]
        unfolding cps' [symmetric] idj sets .
    qed
    have leaf: "map_of ?cps (ID v) = Some 1"
      if v: "v \<in> set issues" and none: "\<forall>u \<in> set issues. \<not> blocksOn u v" for v
    proof -
      from none have "{h. \<exists>u \<in> set issues. blocksOn u v \<and> map_of ?cps (ID u) = Some h} = {}"
        by auto
      with main [OF v] show ?thesis by simp
    qed
    from ac main leaf show ?thesis by blast
  next
    case multi: False
    have "\<not> acyclic ?E" by (rule sccs_component_cyclic [OF ok2 multi])
    moreover have "?cps = []" using cps multi by (simp add: Sort_def)
    ultimately show ?thesis by simp
  qed
qed

theorem criticalPath_depth_witness:
  "distinct (map ID chainExample) \<and> ComputeCriticalPath (fullConfig 0)
   \<and> map_sum id (\<lambda>a. acyclic (set (edges (g a)))) (NewAnalyzer chainExample) = Inr True
   \<and> map_sum id (\<lambda>st. map (map_of (criticalPathScore st)) [''A'', ''B'', ''C''])
        (analyzeIssues chainExample (fullConfig 0) chainLibrary)
       = Inr [Some 1, Some 2, Some 3]
   \<and> distinct (map ID twoCyclesExample)
   \<and> map_sum id (\<lambda>a. acyclic (set (edges (g a)))) (NewAnalyzer twoCyclesExample) = Inr False
   \<and> map_sum id criticalPathScore
        (analyzeIssues twoCyclesExample (fullConfig 0) twoCyclesLibrary) = Inr []"
proof -
  define a where "a = projr (NewAnalyzer chainExample)"
  define st where "st = projr (AnalyzeWithConfig a (fullConfig 0) chainLibrary)"
  define b where "b = projr (NewAnalyzer twoCyclesExample)"
  define su where "su = projr (AnalyzeWithConfig b (fullConfig 0) twoCyclesLibrary)"
  have a1: "NewAnalyzer chainExample = Inr a"
    and ga: "g a = \<lparr>nodes = [0, 1, 2], edges = [(0, 1), (1, 2)]\<rparr>"
    unfolding a_def by (rule chain_graph)+
  have b1: "NewAnalyzer twoCyclesExample = Inr b"
    and gb: "g b = \<lparr>nodes = [0, 1, 2], edges = [(0, 1), (1, 0), (1, 2), (2, 1)]\<rparr>"
    unfolding b_def by (rule two_graph)+
  have a3: "distinct (map ID chainExample)"
    by (simp add: chainExample_def mkIssue_def)
  have b3: "distinct (map ID twoCyclesExample)"
    by (simp add: twoCyclesExample_def mkIssue_def)
  have a4: "sccs_ok (g a) (sortPhase2 chainLibrary)"
    using chain_sccs by (simp add: ga chainLibrary_def timedOutLibrary_def)
  have b4: "sccs_ok (g b) (sortPhase2 twoCyclesLibrary)"
    using two_sccs by (simp add: gb twoCyclesLibrary_def timedOutLibrary_def)
  have en: "ComputeCriticalPath (fullConfig 0)"
    by (simp add: fullConfig_def)
  have a7: "AnalyzeWithConfig a (fullConfig 0) chainLibrary = Inr st"
    unfolding st_def a_def
    by (simp add: run_defs eval_defs chainExample_def chainLibrary_def)
  have b7: "AnalyzeWithConfig b (fullConfig 0) twoCyclesLibrary = Inr su"
    unfolding su_def b_def
    by (simp add: run_defs eval_defs twoCyclesExample_def twoCyclesLibrary_def)
  have res: "map_sum id (\<lambda>st. map (map_of (criticalPathScore st)) [''A'', ''B'', ''C''])
        (analyzeIssues chainExample (fullConfig 0) chainLibrary)
       = Inr [Some 1, Some 2, Some 3]"
    "map_sum id criticalPathScore
        (analyzeIssues twoCyclesExample (fullConfig 0) twoCyclesLibrary) = Inr []"
    by (simp_all add: run_defs eval_defs chainExample_def chainLibrary_def
          twoCyclesExample_def twoCyclesLibrary_def)
  show ?thesis
    using criticalPath_depth [OF a1 a3 a4 en a7] criticalPath_depth [OF b1 b3 b4 en b7]
      a3 b3 en res chain_acyclic two_cyclic
    by (simp add: a1 b1 ga gb)
qed

subsection \<open>Degrees\<close>

lemma degreeLoop_other_keys:
  assumes "k \<notin> lookupID a ` set ns"
  shows "map_of (InDegree (degreeLoop a ns stats)) k = map_of (InDegree stats) k"
    and "map_of (OutDegree (degreeLoop a ns stats)) k = map_of (OutDegree stats) k"
  using assms by (induction ns arbitrary: stats) (auto simp: Let_def update_conv')

lemma degreeLoop_degrees:
  assumes "inj_on (lookupID a) (set ns)" and "n \<in> set ns"
  shows "map_of (InDegree (degreeLoop a ns stats)) (lookupID a n) = Some (int (length (To (g a) n)))
       \<and> map_of (OutDegree (degreeLoop a ns stats)) (lookupID a n)
           = Some (int (length (From (g a) n)))"
  using assms
proof (induction ns arbitrary: stats)
  case Nil
  then show ?case by simp
next
  case (Cons x ns)
  let ?st = "stats\<lparr>InDegree := AList.update (lookupID a x) (int (length (To (g a) x))) (InDegree stats),
               OutDegree := AList.update (lookupID a x) (int (length (From (g a) x))) (OutDegree stats)\<rparr>"
  have step: "degreeLoop a (x # ns) stats = degreeLoop a ns ?st" by (simp add: Let_def)
  show ?case
  proof (cases "n \<in> set ns")
    case True
    with Cons.prems(1) Cons.IH [of ?st] show ?thesis
      unfolding step by simp
  next
    case False
    with Cons.prems(2) have nx: "n = x" by simp
    with Cons.prems(1) False have "lookupID a n \<notin> lookupID a ` set ns"
      by (auto simp: inj_on_def)
    then have "map_of (InDegree (degreeLoop a ns ?st)) (lookupID a n)
        = map_of (InDegree ?st) (lookupID a n)"
      "map_of (OutDegree (degreeLoop a ns ?st)) (lookupID a n)
        = map_of (OutDegree ?st) (lookupID a n)"
      by (rule degreeLoop_other_keys)+
    then show ?thesis
      unfolding step by (simp add: nx update_conv')
  qed
qed

lemma length_To:
  "distinct (edges gr) \<Longrightarrow> length (To gr n) = card {p. (p, n) \<in> set (edges gr)}"
proof -
  assume d: "distinct (edges gr)"
  have "distinct (To gr n)"
    unfolding To_def using d by (auto simp: distinct_map inj_on_def)
  then have "length (To gr n) = card (set (To gr n))" by (simp add: distinct_card)
  then show ?thesis by (simp add: set_To)
qed

lemma set_From: "set (From gr n) = {q. (n, q) \<in> set (edges gr)}"
  by (auto simp: From_def image_iff)

lemma length_From:
  "distinct (edges gr) \<Longrightarrow> length (From gr n) = card {q. (n, q) \<in> set (edges gr)}"
proof -
  assume d: "distinct (edges gr)"
  have "distinct (From gr n)"
    unfolding From_def using d by (auto simp: distinct_map inj_on_def)
  then have "length (From gr n) = card (set (From gr n))" by (simp add: distinct_card)
  then show ?thesis by (simp add: set_From)
qed

lemma computePhase1_degrees:
  "InDegree (computePhase1 a lib stats) = InDegree (degreeLoop a (nodesOrder lib) stats)"
  "OutDegree (computePhase1 a lib stats) = OutDegree (degreeLoop a (nodesOrder lib) stats)"
  by (simp_all add: computePhase1_def Let_def split: option.splits)

lemma card_blockers:
  assumes a: "NewAnalyzer issues = Inr a"
    and d: "distinct (map ID issues)"
    and j: "j < length issues"
  shows "card {p. (p, j) \<in> set (edges (g a))} = card {u \<in> set issues. blocksOn u (issues ! j)}"
    and "card {q. (j, q) \<in> set (edges (g a))} = card {v \<in> set issues. blocksOn (issues ! j) v}"
proof -
  have di: "distinct issues" using d by (simp add: distinct_map)
  have bnd: "p < length issues \<and> q < length issues" if "(p, q) \<in> set (edges (g a))" for p q
    using NewAnalyzer_edges_bound [OF a] NewAnalyzer_Inr(1) [OF a] that by auto
  have inj: "inj_on ((!) issues) {p. (p, j) \<in> set (edges (g a))}"
    "inj_on ((!) issues) {q. (j, q) \<in> set (edges (g a))}"
    using di bnd by (auto simp: inj_on_def nth_eq_iff_index_eq)
  have "(!) issues ` {p. (p, j) \<in> set (edges (g a))} = {u \<in> set issues. blocksOn u (issues ! j)}"
  proof (rule set_eqI, rule iffI)
    fix u assume "u \<in> (!) issues ` {p. (p, j) \<in> set (edges (g a))}"
    then obtain p where p: "(p, j) \<in> set (edges (g a))" "u = issues ! p" by auto
    with bnd [OF p(1)] NewAnalyzer_edge_iff [OF a d _ j, of p]
    show "u \<in> {u \<in> set issues. blocksOn u (issues ! j)}" by simp
  next
    fix u assume "u \<in> {u \<in> set issues. blocksOn u (issues ! j)}"
    then obtain p where p: "p < length issues" "issues ! p = u" "blocksOn u (issues ! j)"
      by (auto simp: in_set_conv_nth)
    with NewAnalyzer_edge_iff [OF a d p(1) j]
    show "u \<in> (!) issues ` {p. (p, j) \<in> set (edges (g a))}" by force
  qed
  with card_image [OF inj(1)]
  show "card {p. (p, j) \<in> set (edges (g a))} = card {u \<in> set issues. blocksOn u (issues ! j)}"
    by simp
  have "(!) issues ` {q. (j, q) \<in> set (edges (g a))} = {v \<in> set issues. blocksOn (issues ! j) v}"
  proof (rule set_eqI, rule iffI)
    fix v assume "v \<in> (!) issues ` {q. (j, q) \<in> set (edges (g a))}"
    then obtain q where q: "(j, q) \<in> set (edges (g a))" "v = issues ! q" by auto
    with bnd [OF q(1)] NewAnalyzer_edge_iff [OF a d j, of q]
    show "v \<in> {v \<in> set issues. blocksOn (issues ! j) v}" by simp
  next
    fix v assume "v \<in> {v \<in> set issues. blocksOn (issues ! j) v}"
    then obtain q where q: "q < length issues" "issues ! q = v" "blocksOn (issues ! j) v"
      by (auto simp: in_set_conv_nth)
    with NewAnalyzer_edge_iff [OF a d j q(1)]
    show "v \<in> (!) issues ` {q. (j, q) \<in> set (edges (g a))}" by force
  qed
  with card_image [OF inj(2)]
  show "card {q. (j, q) \<in> set (edges (g a))} = card {v \<in> set issues. blocksOn (issues ! j) v}"
    by simp
qed

lemma degrees_count_blocking_edges:
  assumes a: "NewAnalyzer issues = Inr a"
    and d: "distinct (map ID issues)"
    and order: "set (nodesOrder lib) = set (nodes (g a))"
    and st: "AnalyzeWithConfig a config lib = Inr st"
    and w: "w \<in> set issues"
  shows "map_of (InDegree st) (ID w) = Some (int (card {u \<in> set issues. blocksOn u w}))"
    and "map_of (OutDegree st) (ID w) = Some (int (card {v \<in> set issues. blocksOn w v}))"
proof -
  from w obtain j where j: "j < length issues" "issues ! j = w" by (auto simp: in_set_conv_nth)
  have ne: "issues \<noteq> []" using w by auto
  have im: "issueMap a \<noteq> []" by (rule NewAnalyzer_issueMap_nonempty [OF a ne])
  note p2 = computePhase2_fields(2,3) [OF AnalyzeWithConfig_nonempty [OF st im]]
  have inj: "inj_on (lookupID a) (set (nodesOrder lib))"
    using NewAnalyzer_lookupID_inj [OF a d] order by simp
  have mem: "j \<in> set (nodesOrder lib)"
    using order NewAnalyzer_Inr(1) [OF a] j(1) by simp
  have idw: "lookupID a j = ID w"
    using NewAnalyzer_lookupID [OF a] j by simp
  note dist = NewAnalyzer_Inr(3) [OF a]
  show "map_of (InDegree st) (ID w) = Some (int (card {u \<in> set issues. blocksOn u w}))"
    using degreeLoop_degrees [OF inj mem] p2 card_blockers(1) [OF a d j(1)] j(2)
    by (simp add: computePhase1_degrees idw length_To [OF dist])
  show "map_of (OutDegree st) (ID w) = Some (int (card {v \<in> set issues. blocksOn w v}))"
    using degreeLoop_degrees [OF inj mem] p2 card_blockers(2) [OF a d j(1)] j(2)
    by (simp add: computePhase1_degrees idw length_From [OF dist])
qed

lemma degrees_of_edges:
  assumes a: "NewAnalyzer issues = Inr a"
    and d: "distinct (map ID issues)"
    and order: "set (nodesOrder lib) = set (nodes (g a))"
    and st: "AnalyzeWithConfig a config lib = Inr st"
    and u: "u \<in> set issues" and v: "v \<in> set issues"
    and e: "blocksOn u v"
  shows "\<exists>out ind. map_of (OutDegree st) (ID u) = Some out \<and> 1 \<le> out
       \<and> map_of (InDegree st) (ID v) = Some ind \<and> 1 \<le> ind"
proof -
  from u obtain i where i: "i < length issues" "issues ! i = u" by (auto simp: in_set_conv_nth)
  from v obtain j where j: "j < length issues" "issues ! j = v" by (auto simp: in_set_conv_nth)
  have edge: "(i, j) \<in> set (edges (g a))"
    using NewAnalyzer_edge_iff [OF a d i(1) j(1)] e i(2) j(2) by simp
  have ne: "issues \<noteq> []" using u by auto
  have im: "issueMap a \<noteq> []" by (rule NewAnalyzer_issueMap_nonempty [OF a ne])
  note p2 = computePhase2_fields(2,3) [OF AnalyzeWithConfig_nonempty [OF st im]]
  have inj: "inj_on (lookupID a) (set (nodesOrder lib))"
    using NewAnalyzer_lookupID_inj [OF a d] order by simp
  have mem: "i \<in> set (nodesOrder lib)" "j \<in> set (nodesOrder lib)"
    using order NewAnalyzer_Inr(1) [OF a] i(1) j(1) by simp_all
  have ids: "lookupID a i = ID u" "lookupID a j = ID v"
    using NewAnalyzer_lookupID [OF a] i j by simp_all
  have out: "map_of (OutDegree st) (ID u) = Some (int (length (From (g a) i)))"
    using degreeLoop_degrees [OF inj mem(1)] p2 by (simp add: computePhase1_degrees ids)
  have ind: "map_of (InDegree st) (ID v) = Some (int (length (To (g a) j)))"
    using degreeLoop_degrees [OF inj mem(2)] p2 by (simp add: computePhase1_degrees ids)
  have "j \<in> set (From (g a) i)" "i \<in> set (To (g a) j)"
    using edge by (simp_all add: set_From set_To)
  then have "1 \<le> length (From (g a) i)" "1 \<le> length (To (g a) j)"
    by (metis One_nat_def Suc_leI length_pos_if_in_set)+
  with out ind show ?thesis by simp
qed

subsection \<open>Rounding to float64\<close>

text \<open>\<open>round64\<close> is a rounding to nearest: the result is at most half a unit in the last
  place away from the number, and a number that is a multiple of the unit is returned as
  it is.\<close>

lemma ulp_pos: "0 < ulp x"
  by (simp add: ulp_def Let_def)

lemma roundEven_error: "\<bar>of_int (roundEven y) - y\<bar> \<le> 1 / 2"
proof -
  have "of_int \<lfloor>y\<rfloor> \<le> y" "y < of_int \<lfloor>y\<rfloor> + 1" by linarith+
  then show ?thesis by (auto simp: roundEven_def Let_def)
qed

lemma roundEven_of_int: "roundEven (of_int m) = m"
  by (simp add: roundEven_def)

lemma round64_error: "\<bar>round64 x - x\<bar> \<le> ulp x / 2"
proof (cases "x = 0")
  case True
  then show ?thesis using ulp_pos [of 0] by (simp add: round64_def)
next
  case False
  have u: "0 < ulp x" by (rule ulp_pos)
  have "round64 x - x = (of_int (roundEven (x / ulp x)) - x / ulp x) * ulp x"
    using False u by (simp add: round64_def field_simps)
  then have "\<bar>round64 x - x\<bar> = \<bar>of_int (roundEven (x / ulp x)) - x / ulp x\<bar> * ulp x"
    using u by (simp add: abs_mult)
  also have "\<dots> \<le> 1 / 2 * ulp x"
    using roundEven_error [of "x / ulp x"] u by (intro mult_right_mono) simp_all
  finally show ?thesis by simp
qed

lemma round64_exact:
  assumes "x = of_int m * ulp x"
  shows "round64 x = x"
proof -
  have "x / ulp x = of_int m"
    using assms ulp_pos [of x] by (metis less_irrefl nonzero_mult_div_cancel_right)
  then show ?thesis using assms by (simp add: round64_def roundEven_of_int)
qed

text \<open>\<open>binaryExp\<close> returns the binary exponent: for a start at exponent \<open>e\<close> and enough
  fuel, the number lies between the power of 2 it returns and the next one, or below the
  smallest normal number.\<close>

lemma two_powi_Suc: "(2::real) powi (k + 1) = 2 * 2 powi k"
  by (simp add: power_int_add)

lemma binaryExp_bounds:
  assumes "2 powi (- int fuel) \<le> x" and "x < 2 powi (int fuel + 1)" and "- 1022 \<le> e"
  shows "(2 powi (binaryExp fuel x e - e) \<le> x \<and> x < 2 powi (binaryExp fuel x e - e + 1))
       \<or> (binaryExp fuel x e = - 1022 \<and> x < 2 powi (binaryExp fuel x e - e))"
  using assms
proof (induction fuel arbitrary: x e)
  case 0
  then show ?case by (simp add: binaryExp.simps)
next
  case (Suc fuel)
  consider "2 \<le> x" | "x < 1" "- 1022 < e" | "1 \<le> x" "x < 2" | "x < 1" "e = - 1022"
    using Suc.prems(3) by linarith
  then show ?case
  proof cases
    case 1
    let ?r = "binaryExp fuel (x / 2) (e + 1)"
    have r: "binaryExp (Suc fuel) x e = ?r"
      using 1 by (subst binaryExp.simps) simp
    have a: "2 powi (- int fuel) \<le> x / 2"
    proof -
      have "(2::real) powi (- int fuel) \<le> 2 powi 0" by (intro power_int_increasing) simp_all
      with 1 show ?thesis by simp
    qed
    have b: "x / 2 < 2 powi (int fuel + 1)"
      using Suc.prems(2) two_powi_Suc [of "int fuel + 1"] by (simp add: add.commute)
    have c: "- 1022 \<le> e + 1" using Suc.prems(3) by simp
    have p1: "(2::real) powi (?r - e) = 2 * 2 powi (?r - (e + 1))"
      using two_powi_Suc [of "?r - (e + 1)"] by simp
    have p2: "(2::real) powi (?r - e + 1) = 2 * 2 powi (?r - (e + 1) + 1)"
      using two_powi_Suc [of "?r - (e + 1) + 1"] by simp
    from Suc.IH [OF a b c] show ?thesis
      unfolding r p1 p2 by auto
  next
    case 2
    let ?r = "binaryExp fuel (x * 2) (e - 1)"
    have r: "binaryExp (Suc fuel) x e = ?r"
      using 2 by (subst binaryExp.simps) simp
    have a: "2 powi (- int fuel) \<le> x * 2"
      using Suc.prems(1) two_powi_Suc [of "- int (Suc fuel)"] by simp
    have b: "x * 2 < 2 powi (int fuel + 1)"
    proof -
      have "(2::real) powi 1 \<le> 2 powi (int fuel + 1)" by (intro power_int_increasing) simp_all
      with 2 show ?thesis by simp
    qed
    have c: "- 1022 \<le> e - 1" using 2 by simp
    have p1: "2 * (2::real) powi (?r - e) = 2 powi (?r - (e - 1))"
      using two_powi_Suc [of "?r - e"] by (simp add: algebra_simps)
    have p2: "2 * (2::real) powi (?r - e + 1) = 2 powi (?r - (e - 1) + 1)"
      using two_powi_Suc [of "?r - e + 1"] by (simp add: algebra_simps)
    from Suc.IH [OF a b c] show ?thesis
      unfolding r p1 [symmetric] p2 [symmetric] by auto
  next
    case 3
    then have "binaryExp (Suc fuel) x e = e" by (subst binaryExp.simps) simp
    with 3 show ?thesis by simp
  next
    case 4
    then have "binaryExp (Suc fuel) x e = e" by (subst binaryExp.simps) simp
    with 4 show ?thesis by simp
  qed
qed

lemma fuel_lower: "(2::real) powi (- int 2100) \<le> 2 powi (- 1022)"
  by (rule power_int_increasing) simp_all

lemma fuel_upper: "(2::real) powi 1024 \<le> 2 powi (int 2100 + 1)"
  by (rule power_int_increasing) simp_all

lemma binaryExp_normal:
  assumes lo: "2 powi (- 1022) \<le> y" and hi: "y < 2 powi 1024"
  shows "2 powi (binaryExp 2100 y 0) \<le> y \<and> y < 2 powi (binaryExp 2100 y 0 + 1)"
proof -
  let ?e = "binaryExp 2100 y 0"
  have a: "2 powi (- int 2100) \<le> y" using fuel_lower lo by (rule order_trans)
  have b: "y < 2 powi (int 2100 + 1)" using hi fuel_upper by (rule less_le_trans)
  have c: "- 1022 \<le> (0::int)" by simp
  from binaryExp_bounds [OF a b c]
  have "(2 powi ?e \<le> y \<and> y < 2 powi (?e + 1)) \<or> (?e = - 1022 \<and> y < 2 powi ?e)"
    by (simp only: diff_zero)
  then show ?thesis
  proof
    assume "2 powi ?e \<le> y \<and> y < 2 powi (?e + 1)"
    then show ?thesis .
  next
    assume "?e = - 1022 \<and> y < 2 powi ?e"
    then have "y < 2 powi (- 1022)" by metis
    with lo show ?thesis by (meson leD)
  qed
qed

lemma ulp_powi: "ulp x = 2 powi (binaryExp 2100 \<bar>x\<bar> 0 - 52)"
proof -
  define e where "e = binaryExp 2100 \<bar>x\<bar> 0 - 52"
  have "ulp x = (if 0 \<le> e then 2 ^ nat e else 1 / 2 ^ nat (- e))"
    unfolding e_def ulp_def Let_def ..
  also have "\<dots> = 2 powi e"
    by (simp add: power_int_def inverse_eq_divide power_one_over)
  finally show ?thesis unfolding e_def .
qed

text \<open>For a number in the normal range, \<open>round64\<close> returns a multiple of 2 to the binary
  exponent less 52 that is at most half of it away.\<close>

lemma round64_normal:
  assumes lo: "2 powi (- 1022) \<le> \<bar>x\<bar>" and hi: "\<bar>x\<bar> < 2 powi 1024"
  shows "\<exists>e m. 2 powi e \<le> \<bar>x\<bar> \<and> \<bar>x\<bar> < 2 powi (e + 1)
           \<and> round64 x = of_int m * 2 powi (e - 52)
           \<and> \<bar>round64 x - x\<bar> \<le> 2 powi (e - 52) / 2"
proof -
  let ?e = "binaryExp 2100 \<bar>x\<bar> 0"
  have "(0::real) < 2 powi (- 1022)" by (rule zero_less_power_int) simp
  with lo have nz: "x \<noteq> 0" by auto
  have r: "round64 x = of_int (roundEven (x / ulp x)) * 2 powi (?e - 52)"
    using nz by (simp only: round64_def ulp_powi [symmetric] if_False)
  have "\<bar>round64 x - x\<bar> \<le> 2 powi (?e - 52) / 2"
    using round64_error [of x] by (simp only: ulp_powi)
  with binaryExp_normal [OF lo hi] r show ?thesis by blast
qed


subsection \<open>Impact scores\<close>

text \<open>Evaluation of \<open>round64\<close> at a literal: the definition, instantiated.\<close>

lemma round64_zero: "round64 0 = 0"
  by (simp add: round64_def)

lemma round64_literal:
  "round64 1 = (if (1::real) = 0 then 0 else of_int (roundEven (1 / ulp 1)) * ulp 1)"
  "round64 (numeral a) =
     (if (numeral a :: real) = 0 then 0
      else of_int (roundEven (numeral a / ulp (numeral a))) * ulp (numeral a))"
  "round64 (numeral a / numeral b) =
     (if (numeral a / numeral b :: real) = 0 then 0
      else of_int (roundEven (numeral a / numeral b / ulp (numeral a / numeral b)))
           * ulp (numeral a / numeral b))"
  "round64 (1 / numeral b) =
     (if (1 / numeral b :: real) = 0 then 0
      else of_int (roundEven (1 / numeral b / ulp (1 / numeral b))) * ulp (1 / numeral b))"
  "round64 (- 1) = (if (- 1::real) = 0 then 0 else of_int (roundEven (- 1 / ulp (- 1))) * ulp (- 1))"
  "round64 (- numeral a) =
     (if (- numeral a :: real) = 0 then 0
      else of_int (roundEven (- numeral a / ulp (- numeral a))) * ulp (- numeral a))"
  "round64 (- (numeral a / numeral b)) =
     (if (- (numeral a / numeral b) :: real) = 0 then 0
      else of_int (roundEven (- (numeral a / numeral b) / ulp (- (numeral a / numeral b))))
           * ulp (- (numeral a / numeral b)))"
  "round64 (- (1 / numeral b)) =
     (if (- (1 / numeral b) :: real) = 0 then 0
      else of_int (roundEven (- (1 / numeral b) / ulp (- (1 / numeral b))))
           * ulp (- (1 / numeral b)))"
  by (rule round64_def)+

lemmas float_defs = fadd_def fmul_def fdiv_def ofInt_def round64_zero round64_literal ulp_def
  roundEven_def binaryExp.simps truncDiv_def truncMod_def Hour_def Let_def

lemmas impact_defs = impactScoresOf_def ComputeImpactScoresAt_def scoreIssue_def computeStaleness_def computePriorityBoost_def
  normalize_def normalizeInt_def findMax_def findMaxInt_def lookup0_def sortSlice_def scoreLess_def
  WeightPageRank_def WeightBetweenness_def WeightBlockerRatio_def WeightStaleness_def WeightPriorityBoost_def
  Sub_def Hours_def maxDuration_def minDuration_def quietConfig_def

lemmas spec_defs = specScore_def specStaleness_def specRatio_def specRatioInt_def specMaximum_def
  specPriorityBoost_def daysSinceUpdate_def amendedStaleness_def nowT_def day_def

lemma foldl_max:
  "foldl (\<lambda>mx (k, v). if v > mx then v else mx) acc m
     = Max (insert (acc :: 'a :: linorder) (snd ` set m))"
proof -
  have "foldl (\<lambda>mx (k, v). if v > mx then v else mx) acc m = fold max (map snd m) acc"
    by (induction m arbitrary: acc) (auto simp: max_def)
  also have "\<dots> = Max (set (acc # map snd m))"
    by (simp only: Max.set_eq_fold)
  finally show ?thesis by simp
qed

lemma findMax_specMaximum: "findMax m = specMaximum m"
  by (simp add: findMax_def specMaximum_def foldl_max)

lemma findMaxInt_specMaximum: "findMaxInt m = specMaximum m"
  by (simp add: findMaxInt_def specMaximum_def foldl_max)

lemma computeStaleness_amended: "computeStaleness updatedAt now = amendedStaleness updatedAt now"
  by (simp add: computeStaleness_def amendedStaleness_def daysSinceUpdate_def Let_def)

lemma scoreIssue_fields:
  "IssueID (scoreIssue stats (findMax (pageRank stats)) (findMax (betweenness stats))
              (findMaxInt (InDegree stats)) now ident issue) = ident"
  "Score (scoreIssue stats (findMax (pageRank stats)) (findMax (betweenness stats))
              (findMaxInt (InDegree stats)) now ident issue)
     = specScore stats ident (amendedStaleness (UpdatedAt issue) now) (Priority issue)"
  by (simp_all add: scoreIssue_def Let_def specScore_def normalize_def normalizeInt_def
        specRatio_def specRatioInt_def findMax_specMaximum findMaxInt_specMaximum
        computeStaleness_amended computePriorityBoost_def specPriorityBoost_def
        WeightPageRank_def WeightBetweenness_def WeightBlockerRatio_def WeightStaleness_def
        WeightPriorityBoost_def fmul_def mult.commute)

lemma impactLoop_eq:
  "impactLoop m body ks acc = acc @ map (\<lambda>k. body k (the (m k))) (filter (isOpenIn m) ks)"
  by (induction ks arbitrary: acc) (auto simp: isOpenIn_def split: option.splits)

lemma set_insertBy: "set (insertBy lt x ys) = insert x (set ys)"
  by (induction ys) auto

lemma set_sortSlice: "set (sortSlice lt xs) = set xs"
  unfolding sortSlice_def by (induction xs) (simp_all add: set_insertBy)

lemma distinct_map_insertBy:
  "distinct (map f (insertBy lt x ys)) \<longleftrightarrow> f x \<notin> f ` set ys \<and> distinct (map f ys)"
  by (induction ys) (auto simp: set_insertBy)

lemma distinct_map_sortSlice: "distinct (map f (sortSlice lt xs)) \<longleftrightarrow> distinct (map f xs)"
  unfolding sortSlice_def
  by (induction xs) (simp_all add: distinct_map_insertBy set_sortSlice [unfolded sortSlice_def])

lemma sorted_wrt_insertBy:
  assumes asym: "\<And>a b. lt a b \<Longrightarrow> \<not> lt b a"
    and ntrans: "\<And>a b c. \<not> lt b a \<Longrightarrow> \<not> lt c b \<Longrightarrow> \<not> lt c a"
    and sorted: "sorted_wrt (\<lambda>a b. \<not> lt b a) ys"
  shows "sorted_wrt (\<lambda>a b. \<not> lt b a) (insertBy lt x ys)"
  using sorted
proof (induction ys)
  case Nil
  show ?case by simp
next
  case (Cons y ys)
  show ?case
  proof (cases "lt y x")
    case True
    with Cons asym show ?thesis by (auto simp: set_insertBy)
  next
    case False
    with Cons ntrans show ?thesis by auto
  qed
qed

lemma sorted_wrt_sortSlice:
  assumes "\<And>a b. lt a b \<Longrightarrow> \<not> lt b a"
    and "\<And>a b c. \<not> lt b a \<Longrightarrow> \<not> lt c b \<Longrightarrow> \<not> lt c a"
  shows "sorted_wrt (\<lambda>a b. \<not> lt b a) (sortSlice lt xs)"
  unfolding sortSlice_def
  by (induction xs) (simp_all add: sorted_wrt_insertBy [OF assms])

lemma scoreLess_asym: "scoreLess x y \<Longrightarrow> \<not> scoreLess y x"
  by (auto simp: scoreLess_def split: if_splits)

lemma scoreLess_ntrans: "\<not> scoreLess y x \<Longrightarrow> \<not> scoreLess z y \<Longrightarrow> \<not> scoreLess z x"
  by (auto simp: scoreLess_def split: if_splits)

lemma scoreLess_total: "IssueID x \<noteq> IssueID y \<Longrightarrow> \<not> scoreLess y x \<Longrightarrow> scoreOrder x y"
  by (auto simp: scoreLess_def scoreOrder_def split: if_splits)

lemma sorted_wrt_distinct_strengthen:
  "sorted_wrt P xs \<Longrightarrow> distinct (map f xs) \<Longrightarrow> sorted_wrt (\<lambda>x y. P x y \<and> f x \<noteq> f y) xs"
  by (induction xs) auto

lemma sortSlice_scoreOrder:
  assumes "distinct (map IssueID xs)"
  shows "sorted_wrt scoreOrder (sortSlice scoreLess xs)"
proof -
  have "sorted_wrt (\<lambda>a b. \<not> scoreLess b a) (sortSlice scoreLess xs)"
    by (rule sorted_wrt_sortSlice [OF scoreLess_asym scoreLess_ntrans])
  moreover have "distinct (map IssueID (sortSlice scoreLess xs))"
    using assms by (simp add: distinct_map_sortSlice)
  ultimately have "sorted_wrt (\<lambda>x y. \<not> scoreLess y x \<and> IssueID x \<noteq> IssueID y)
      (sortSlice scoreLess xs)"
    by (rule sorted_wrt_distinct_strengthen)
  then show ?thesis
    by (rule sorted_wrt_mono_rel [rotated]) (auto intro: scoreLess_total)
qed

text \<open>The weights as \<^verbatim>\<open>float64\<close> values.\<close>

lemma round64_weights:
  "round64 (30 / 100) = 5404319552844595 / 18014398509481984"
  "round64 (20 / 100) = 3602879701896397 / 18014398509481984"
  "round64 (10 / 100) = 3602879701896397 / 36028797018963968"
  by (simp_all add: float_defs)

text \<open>Rounding decides the order of the list: the two scores of \<open>roundingExample\<close> are
  equal as rationals, and the \<^verbatim>\<open>float64\<close> sum of the second is one unit in the last place
  above that of the first, so \<open>B\<close> comes first.\<close>

lemma roundingExample_scores:
  "map_sum id (map (\<lambda>s. (IssueID s, Score s)))
      (impactScoresOf roundingExample nowT quietConfig (timedOutLibrary [[0], [1]] TimedOut)
         [''A'', ''B''])
     = Inr [(''B'', 915731924232001 / 9007199254740992),
            (''A'', 7325855393856007 / 72057594037927936)]"
  by (simp add: impact_defs run_defs eval_defs spec_defs float_defs roundingExample_def)

text \<open>
  C5, the claim as stated fails. For an open issue of priority 4 whose update time is
  the zero time the score is 0.10 * 0.5, half the \<^verbatim>\<open>float64\<close> nearest to 1/10, where the
  claim's formula gives 0.10 * min (days / 30, 1) = 0.10 * 1; for one updated 30 days
  after \<open>now\<close> the score is 0, where the formula gives 0.10 * (- 1).
\<close>

theorem impactScores_staleness_counterexample:
  "map_sum id (map (\<lambda>s. (IssueID s, Score s)))
      (impactScoresOf zeroTimeExample nowT quietConfig singleLibrary [''A''])
     = Inr [(''A'', 3602879701896397 / 72057594037927936)]
   \<and> map_sum id (\<lambda>stats. specScore stats ''A'' (specStaleness 0 nowT) 4)
        (analyzeIssues zeroTimeExample quietConfig singleLibrary)
       = Inr (3602879701896397 / 36028797018963968)
   \<and> map_sum id (map (\<lambda>s. (IssueID s, Score s)))
        (impactScoresOf futureExample nowT quietConfig singleLibrary [''A''])
       = Inr [(''A'', 0)]
   \<and> map_sum id (\<lambda>stats. specScore stats ''A'' (specStaleness (nowT + 30 * day) nowT) 4)
        (analyzeIssues futureExample quietConfig singleLibrary)
       = Inr (- (3602879701896397 / 36028797018963968))"
  by (simp add: impact_defs run_defs eval_defs spec_defs float_defs zeroTimeExample_def
        futureExample_def singleLibrary_def)

text \<open>
  C5, amended. For an input with distinct ids from which \<^verbatim>\<open>NewAnalyzer\<close> builds a graph and
  whose analysis completes, \<^verbatim>\<open>ComputeImpactScoresAt\<close> returns one entry per issue that is
  not closed; its score is the \<^verbatim>\<open>float64\<close> value of 0.30 * (PageRank / maxPR) + 0.30 *
  (betweenness / maxBW) + 0.20 * (InDegree / maxInDegree) + 0.10 * staleness + 0.10 *
  priority boost, every operation rounded and the sum taken from left to right, every
  ratio being 0 when its maximum is 0, the boost being 1, 0.75, 0.5, 0.25, 0 for the
  priorities 0, 1, 2, 3 and the others, and the staleness being 0.5 when the update time
  is the zero time and otherwise \<open>days_since_update / 30\<close> kept between 0 and 1; the list
  is sorted by score descending, ties by id ascending.
\<close>

theorem impactScores_formula:
  assumes a: "NewAnalyzer issues = Inr a"
    and d: "distinct (map ID issues)"
    and ks: "distinct ks" "set ks = ID ` set issues"
    and st: "AnalyzeWithConfig a config lib = Inr stats"
  shows "\<exists>scores. ComputeImpactScoresAt a now config lib ks = Inr scores
       \<and> distinct (map IssueID scores)
       \<and> set (map IssueID scores) = {ID i | i. i \<in> set issues \<and> Status i \<noteq> StatusClosed}
       \<and> (\<forall>s \<in> set scores. \<exists>i \<in> set issues. IssueID s = ID i \<and>
              Score s = specScore stats (ID i) (amendedStaleness (UpdatedAt i) now) (Priority i))
       \<and> sorted_wrt scoreOrder scores"
proof (cases "issues = []")
  case True
  with a have "issueMap a = []"
    using NewAnalyzer_issueMap [OF a] by (simp add: emptyAnalyzer_def)
  with True show ?thesis by (simp add: ComputeImpactScoresAt_def)
next
  case False
  let ?m = "map_of (issueMap a)"
  let ?body = "scoreIssue stats (findMax (pageRank stats)) (findMax (betweenness stats))
                 (findMaxInt (InDegree stats)) now"
  let ?open = "filter (isOpenIn ?m) ks"
  let ?raw = "map (\<lambda>k. ?body k (the (?m k))) ?open"
  have im: "issueMap a = map (\<lambda>i. (ID i, i)) issues"
    using NewAnalyzer_issueMap [OF a] addNodes_issueMap_distinct [OF d] by simp
  have look: "?m (ID i) = Some i" if "i \<in> set issues" for i
  proof -
    have "map_of (map (\<lambda>i. (ID i, i)) issues) (ID i) = Some i"
      using d that by (intro map_of_is_SomeI) (auto simp: comp_def)
    then show ?thesis by (simp add: im)
  qed
  have ne: "length (issueMap a) \<noteq> 0" using False by (simp add: im)
  have res: "ComputeImpactScoresAt a now config lib ks = Inr (sortSlice scoreLess ?raw)"
    using ne st by (simp add: ComputeImpactScoresAt_def Let_def impactLoop_eq)
  have ids: "map IssueID ?raw = ?open"
    by (simp add: comp_def scoreIssue_fields(1))
  have dist: "distinct (map IssueID ?raw)"
    unfolding ids using ks(1) by simp
  have p1: "distinct (map IssueID (sortSlice scoreLess ?raw))"
    using dist by (simp only: distinct_map_sortSlice)
  have "set (map IssueID (sortSlice scoreLess ?raw)) = set (map IssueID ?raw)"
    by (simp only: set_map set_sortSlice)
  also have "\<dots> = {k \<in> ID ` set issues. isOpenIn ?m k}"
    unfolding ids using ks(2) by auto
  also have "\<dots> = {ID i | i. i \<in> set issues \<and> Status i \<noteq> StatusClosed}"
    using look by (auto simp: isOpenIn_def)
  finally have p2: "set (map IssueID (sortSlice scoreLess ?raw))
      = {ID i | i. i \<in> set issues \<and> Status i \<noteq> StatusClosed}" .
  have p3: "\<exists>i \<in> set issues. IssueID s = ID i \<and>
      Score s = specScore stats (ID i) (amendedStaleness (UpdatedAt i) now) (Priority i)"
    if "s \<in> set (sortSlice scoreLess ?raw)" for s
  proof -
    from that have "s \<in> set ?raw" by (simp only: set_sortSlice)
    then obtain k where k: "k \<in> set ks" "s = ?body k (the (?m k))" by auto
    from k(1) ks(2) obtain i where i: "i \<in> set issues" "k = ID i" by auto
    with look [OF i(1)] k(2) have "s = ?body (ID i) i" by simp
    then have "IssueID s = ID i"
      "Score s = specScore stats (ID i) (amendedStaleness (UpdatedAt i) now) (Priority i)"
      by (simp_all only: scoreIssue_fields)
    with i(1) show ?thesis by blast
  qed
  have p4: "sorted_wrt scoreOrder (sortSlice scoreLess ?raw)"
    by (rule sortSlice_scoreOrder [OF dist])
  from res p1 p2 p3 p4 show ?thesis by blast
qed

theorem impactScores_formula_witness:
  "distinct (map ID impactWitness)
   \<and> distinct [''D'', ''C'', ''E'', ''B'', ''A'']
   \<and> set [''D'', ''C'', ''E'', ''B'', ''A''] = ID ` set impactWitness
   \<and> map_sum id (map (\<lambda>s. (IssueID s, Score s)))
        (impactScoresOf impactWitness nowT (fullConfig 0) impactLibrary
           [''D'', ''C'', ''E'', ''B'', ''A''])
       = Inr [(''B'', 5854679515581645 / 9007199254740992),
              (''A'', 2026619832316723 / 4503599627370496),
              (''E'', 2026619832316723 / 4503599627370496),
              (''D'', 3152519739159347 / 9007199254740992)]"
proof -
  define a where "a = projr (NewAnalyzer impactWitness)"
  define stats where "stats = projr (AnalyzeWithConfig a (fullConfig 0) impactLibrary)"
  have h1: "NewAnalyzer impactWitness = Inr a"
    unfolding a_def by (simp add: eval_defs impactWitness_def)
  have h2: "distinct (map ID impactWitness)"
    by (simp add: impactWitness_def)
  have h3: "distinct [''D'', ''C'', ''E'', ''B'', ''A'']"
    by simp
  have h4: "set [''D'', ''C'', ''E'', ''B'', ''A''] = ID ` set impactWitness"
    by (auto simp: impactWitness_def)
  have h5: "AnalyzeWithConfig a (fullConfig 0) impactLibrary = Inr stats"
    unfolding stats_def a_def
    by (simp add: run_defs eval_defs impactWitness_def impactLibrary_def)
  have ev: "map_sum id (map (\<lambda>s. (IssueID s, Score s)))
        (impactScoresOf impactWitness nowT (fullConfig 0) impactLibrary
           [''D'', ''C'', ''E'', ''B'', ''A''])
       = Inr [(''B'', 5854679515581645 / 9007199254740992),
              (''A'', 2026619832316723 / 4503599627370496),
              (''E'', 2026619832316723 / 4503599627370496),
              (''D'', 3152519739159347 / 9007199254740992)]"
    by (simp add: impact_defs run_defs eval_defs spec_defs float_defs impactWitness_def
          impactLibrary_def)
  show ?thesis
    using impactScores_formula [OF h1 h2 h3 h4 h5, of nowT] h2 h3 h4 ev
    by simp
qed

subsection \<open>Snapshot accessors\<close>

lemma map_of_copy:
  "map_of (foldl (\<lambda>acc (k, v). AList.update k v acc) init m) = map_of init ++ map_of (rev m)"
  by (induction m arbitrary: init) (auto simp: update_conv' fun_eq_iff map_add_def split: option.splits)

lemma copyMap_Some:
  assumes "fetch h p = Some (MapObject m)"
  shows "copyMap (Some p) h
     = (Some (length h), h @ [MapObject (foldl (\<lambda>acc (k, v). AList.update k v acc) [] m)])"
  using assms by (simp add: copyMap_def alloc_def)

lemma copyMap_other:
  assumes "\<forall>m. fetch h p \<noteq> Some (MapObject m)"
  shows "copyMap (Some p) h = (None, h)"
  using assms by (auto simp: copyMap_def split: option.splits object.splits)

lemma copyMap_frame:
  assumes "copyMap f h = (r, h')"
  shows "take (length h) h' = h \<and> snapshotRefs h' r \<subseteq> {length h ..< length h'}"
proof (cases f)
  case None
  with assms show ?thesis by (simp add: copyMap_def snapshotRefs_def)
next
  case (Some p)
  show ?thesis
  proof (cases "\<exists>m. fetch h p = Some (MapObject m)")
    case True
    then obtain m where "fetch h p = Some (MapObject m)" by blast
    from copyMap_Some [OF this] assms Some show ?thesis
      by (auto simp: snapshotRefs_def innerRefs_def fetch_def)
  next
    case False
    then have "copyMap (Some p) h = (None, h)" by (intro copyMap_other) simp
    with assms Some show ?thesis by (simp add: snapshotRefs_def)
  qed
qed

lemma fetch_prefix:
  assumes "take (length h) k = h" and "p < length h"
  shows "fetch k p = fetch h p"
proof -
  have "length h \<le> length k" using assms(1) by (metis length_take min.cobounded1)
  moreover have "k ! p = h ! p" using assms by (metis nth_take)
  ultimately show ?thesis using assms(2) by (simp add: fetch_def)
qed

lemma copyMap_contents_prefix:
  assumes "take (length h) k = h" and "\<forall>p. f = Some p \<longrightarrow> p < length h"
  shows "contentsOf (copyMap f k) = contentsOf (copyMap f h)"
proof (cases f)
  case None
  then show ?thesis by (simp add: copyMap_def contentsOf_def contents_def)
next
  case (Some p)
  with assms have fp: "fetch k p = fetch h p" by (intro fetch_prefix) auto
  show ?thesis
  proof (cases "\<exists>m. fetch h p = Some (MapObject m)")
    case True
    then obtain m where m: "fetch h p = Some (MapObject m)" by blast
    show ?thesis
      unfolding Some copyMap_Some [OF m] copyMap_Some [OF m [folded fp]]
      by (simp add: contentsOf_def contents_def fetch_def)
  next
    case False
    then have "\<forall>m. fetch h p \<noteq> Some (MapObject m)" "\<forall>m. fetch k p \<noteq> Some (MapObject m)"
      using fp by simp_all
    then have "copyMap (Some p) h = (None, h)" "copyMap (Some p) k = (None, k)"
      using copyMap_other by blast+
    then show ?thesis by (simp add: Some contentsOf_def contents_def)
  qed
qed

lemma appendToNil_cases:
  "(appendToNil h c = (None, h) \<and> readStrings h c = [])
   \<or> (appendToNil h c = (Some (length h), h @ [StringArray (readStrings h c)])
       \<and> readStrings h c \<noteq> [])"
  by (simp add: appendToNil_def alloc_def Let_def)

lemma readStrings_same:
  assumes "\<forall>q. c = Some q \<longrightarrow> q < length h \<and> q < length k \<and> k ! q = h ! q"
  shows "readStrings k c = readStrings h c"
  using assms by (cases c) (simp_all add: readStrings_def fetch_def)

lemma cyclesLoop_inv:
  assumes "r < length h1"
    and "h1 ! r = SliceArray xs"
    and "i + length cs \<le> length xs"
    and "\<forall>q. Some q \<in> set cs \<longrightarrow> q < r"
  shows "\<exists>xs'. length h1 \<le> length (cyclesLoop r i cs h1)
        \<and> (\<forall>q < length h1. q \<noteq> r \<longrightarrow> cyclesLoop r i cs h1 ! q = h1 ! q)
        \<and> cyclesLoop r i cs h1 ! r = SliceArray xs'
        \<and> length xs' = length xs
        \<and> (\<forall>j < length xs. j < i \<or> i + length cs \<le> j \<longrightarrow> xs' ! j = xs ! j)
        \<and> (\<forall>j < length cs.
               readStrings (cyclesLoop r i cs h1) (xs' ! (i + j)) = readStrings h1 (cs ! j)
               \<and> (\<forall>q. xs' ! (i + j) = Some q \<longrightarrow>
                      length h1 \<le> q \<and> q < length (cyclesLoop r i cs h1)))"
  using assms
proof (induction cs arbitrary: i h1 xs)
  case Nil
  then show ?case by simp
next
  case (Cons c cs)
  obtain e ha where app: "appendToNil h1 c = (e, ha)" by (cases "appendToNil h1 c")
  define hb where "hb = setElem ha r i e"
  let ?hf = "cyclesLoop r (Suc i) cs hb"
  have hf: "cyclesLoop r i (c # cs) h1 = ?hf"
    by (simp add: app hb_def)
  have ha: "(e = None \<and> ha = h1 \<and> readStrings h1 c = [])
      \<or> (e = Some (length h1) \<and> ha = h1 @ [StringArray (readStrings h1 c)]
          \<and> readStrings h1 c \<noteq> [])"
    using appendToNil_cases [of h1 c] app by auto
  have len_ha: "length h1 \<le> length ha" using ha by auto
  have pre_ha: "ha ! q = h1 ! q" if "q < length h1" for q
    using ha that by (auto simp: nth_append)
  have r_ha: "r < length ha" "ha ! r = SliceArray xs"
    using Cons.prems(1,2) len_ha pre_ha by auto
  have hb_eq: "hb = ha[r := SliceArray (xs[i := e])]"
    using r_ha by (simp add: hb_def setElem_def fetch_def)
  have len_hb: "length hb = length ha" by (simp add: hb_eq)
  have pre_hb: "hb ! q = ha ! q" if "q \<noteq> r" for q
    using that by (simp add: hb_eq)
  have r_hb: "r < length hb" "hb ! r = SliceArray (xs[i := e])"
    using r_ha by (simp_all add: hb_eq)
  have i_lt: "i < length xs" using Cons.prems(3) by simp
  have "\<exists>xs'. length hb \<le> length ?hf
        \<and> (\<forall>q < length hb. q \<noteq> r \<longrightarrow> ?hf ! q = hb ! q)
        \<and> ?hf ! r = SliceArray xs'
        \<and> length xs' = length (xs[i := e])
        \<and> (\<forall>j < length (xs[i := e]). j < Suc i \<or> Suc i + length cs \<le> j \<longrightarrow>
               xs' ! j = (xs[i := e]) ! j)
        \<and> (\<forall>j < length cs.
               readStrings ?hf (xs' ! (Suc i + j)) = readStrings hb (cs ! j)
               \<and> (\<forall>q. xs' ! (Suc i + j) = Some q \<longrightarrow> length hb \<le> q \<and> q < length ?hf))"
    using Cons.prems(3,4) by (intro Cons.IH [OF r_hb]) auto
  then obtain xs' where ih_all: "length hb \<le> length ?hf
        \<and> (\<forall>q < length hb. q \<noteq> r \<longrightarrow> ?hf ! q = hb ! q)
        \<and> ?hf ! r = SliceArray xs'
        \<and> length xs' = length (xs[i := e])
        \<and> (\<forall>j < length (xs[i := e]). j < Suc i \<or> Suc i + length cs \<le> j \<longrightarrow>
               xs' ! j = (xs[i := e]) ! j)
        \<and> (\<forall>j < length cs.
               readStrings ?hf (xs' ! (Suc i + j)) = readStrings hb (cs ! j)
               \<and> (\<forall>q. xs' ! (Suc i + j) = Some q \<longrightarrow> length hb \<le> q \<and> q < length ?hf))"
    by blast
  have ih: "length hb \<le> length ?hf"
      "\<And>q. q < length hb \<Longrightarrow> q \<noteq> r \<Longrightarrow> ?hf ! q = hb ! q"
      "?hf ! r = SliceArray xs'"
      "length xs' = length xs"
      "\<And>j. j < length xs \<Longrightarrow> j < Suc i \<or> Suc i + length cs \<le> j \<Longrightarrow> xs' ! j = (xs[i := e]) ! j"
      "\<And>j. j < length cs \<Longrightarrow> readStrings ?hf (xs' ! (Suc i + j)) = readStrings hb (cs ! j)"
      "\<And>j q. j < length cs \<Longrightarrow> xs' ! (Suc i + j) = Some q \<Longrightarrow> length hb \<le> q \<and> q < length ?hf"
    using ih_all by (auto simp: nth_list_update)
  have c1: "length h1 \<le> length ?hf" using len_ha len_hb ih(1) by simp
  have c2: "?hf ! q = h1 ! q" if "q < length h1" "q \<noteq> r" for q
    using that ih(2) [of q] pre_hb [of q] pre_ha [of q] len_ha len_hb by simp
  have c5: "xs' ! j = xs ! j" if "j < length xs" "j < i \<or> i + length (c # cs) \<le> j" for j
    using that ih(5) [of j] by auto
  have at_i: "xs' ! i = e" using ih(5) [of i] i_lt by simp
  have c6: "readStrings ?hf (xs' ! (i + j)) = readStrings h1 ((c # cs) ! j)
      \<and> (\<forall>q. xs' ! (i + j) = Some q \<longrightarrow> length h1 \<le> q \<and> q < length ?hf)"
    if j: "j < length (c # cs)" for j
  proof (cases j)
    case 0
    from ha show ?thesis
    proof
      assume "e = None \<and> ha = h1 \<and> readStrings h1 c = []"
      then show ?thesis by (simp add: 0 at_i readStrings_def)
    next
      assume new: "e = Some (length h1) \<and> ha = h1 @ [StringArray (readStrings h1 c)]
          \<and> readStrings h1 c \<noteq> []"
      then have lt: "length h1 < length hb" by (simp add: len_hb)
      have "length h1 \<noteq> r" using Cons.prems(1) by simp
      with lt ih(2) [of "length h1"] pre_hb [of "length h1"] new
      have "?hf ! length h1 = StringArray (readStrings h1 c)" by simp
      moreover have "length h1 < length ?hf" using lt ih(1) by simp
      ultimately show ?thesis
        using new by (simp add: 0 at_i readStrings_def fetch_def)
    qed
  next
    case (Suc j')
    with j have j': "j' < length cs" by simp
    have "readStrings hb (cs ! j') = readStrings h1 (cs ! j')"
    proof (rule readStrings_same, intro allI impI)
      fix q assume "cs ! j' = Some q"
      with j' have "Some q \<in> set cs" by (metis nth_mem)
      with Cons.prems(4) have "q < r" by simp
      with Cons.prems(1) len_ha len_hb pre_hb [of q] pre_ha [of q]
      show "q < length h1 \<and> q < length hb \<and> hb ! q = h1 ! q" by simp
    qed
    with ih(6) [OF j'] ih(7) [OF j'] len_ha len_hb show ?thesis
      by (auto simp: Suc)
  qed
  show ?case
    unfolding hf using c1 c2 ih(3,4) c5 c6 by blast
qed

lemma Cycles_Some:
  assumes ref: "cyclesRef s = Some p"
    and p: "p < length h" "h ! p = SliceArray cs"
    and inner: "\<forall>q. Some q \<in> set cs \<longrightarrow> q < length h"
  shows "\<exists>h' xs'. Cycles s h = (Some (length h), h')
        \<and> length h < length h' \<and> take (length h) h' = h
        \<and> h' ! length h = SliceArray xs'
        \<and> map (readStrings h') xs' = map (readStrings h) cs
        \<and> (\<forall>q. Some q \<in> set xs' \<longrightarrow> length h < q \<and> q < length h')"
proof -
  let ?xs = "replicate (length cs) (None :: ref option)"
  let ?h1 = "h @ [SliceArray ?xs]"
  let ?r = "length h"
  let ?hf = "cyclesLoop ?r 0 cs ?h1"
  have res: "Cycles s h = (Some ?r, ?hf)"
    using ref p by (simp add: Cycles_def fetch_def alloc_def)
  have "\<exists>xs'. length ?h1 \<le> length ?hf
        \<and> (\<forall>q < length ?h1. q \<noteq> ?r \<longrightarrow> ?hf ! q = ?h1 ! q)
        \<and> ?hf ! ?r = SliceArray xs'
        \<and> length xs' = length ?xs
        \<and> (\<forall>j < length ?xs. j < 0 \<or> 0 + length cs \<le> j \<longrightarrow> xs' ! j = ?xs ! j)
        \<and> (\<forall>j < length cs.
               readStrings ?hf (xs' ! (0 + j)) = readStrings ?h1 (cs ! j)
               \<and> (\<forall>q. xs' ! (0 + j) = Some q \<longrightarrow> length ?h1 \<le> q \<and> q < length ?hf))"
    using inner by (intro cyclesLoop_inv) simp_all
  then obtain xs' where inv: "length ?h1 \<le> length ?hf"
      "\<forall>q < length ?h1. q \<noteq> ?r \<longrightarrow> ?hf ! q = ?h1 ! q"
      "?hf ! ?r = SliceArray xs'"
      "length xs' = length cs"
      "\<forall>j < length cs. readStrings ?hf (xs' ! j) = readStrings ?h1 (cs ! j)
               \<and> (\<forall>q. xs' ! j = Some q \<longrightarrow> length ?h1 \<le> q \<and> q < length ?hf)"
    by auto
  have c1: "length h < length ?hf" using inv(1) by simp
  have c2: "take (length h) ?hf = h"
  proof (rule nth_equalityI)
    show "length (take (length h) ?hf) = length h" using c1 by simp
  next
    fix q assume "q < length (take (length h) ?hf)"
    then have q: "q < length h" by simp
    with inv(2) have "?hf ! q = ?h1 ! q" by simp
    with q show "take (length h) ?hf ! q = h ! q" by (simp add: nth_append)
  qed
  have old: "readStrings ?h1 c = readStrings h c" if "c \<in> set cs" for c
    using inner that by (intro readStrings_same) (auto simp: nth_append)
  have c4: "map (readStrings ?hf) xs' = map (readStrings h) cs"
  proof (rule nth_equalityI)
    show "length (map (readStrings ?hf) xs') = length (map (readStrings h) cs)"
      by (simp add: inv(4))
  next
    fix j assume "j < length (map (readStrings ?hf) xs')"
    then have j: "j < length cs" by (simp add: inv(4))
    with inv(5) old [of "cs ! j"] show "map (readStrings ?hf) xs' ! j = map (readStrings h) cs ! j"
      by (simp add: inv(4))
  qed
  have c5: "length h < q \<and> q < length ?hf" if "Some q \<in> set xs'" for q
  proof -
    from that obtain j where "j < length xs'" "xs' ! j = Some q"
      by (auto simp: in_set_conv_nth)
    with inv(4,5) show ?thesis by auto
  qed
  from res c1 c2 inv(3) c4 c5 show ?thesis by blast
qed

lemma Cycles_other:
  assumes "cyclesRef s = None \<or> (\<exists>p. cyclesRef s = Some p \<and> (\<forall>cs. fetch h p \<noteq> Some (SliceArray cs)))"
  shows "Cycles s h = (None, h)"
  using assms by (auto simp: Cycles_def split: option.splits object.splits)

lemma validRefs_fields:
  assumes "validRefs s h"
  shows "\<forall>f \<in> set (fieldRefs s). \<forall>p. f = Some p \<longrightarrow> p < length h"
    and "\<forall>p cs. cyclesRef s = Some p \<and> h ! p = SliceArray cs \<longrightarrow>
           (\<forall>q. Some q \<in> set cs \<longrightarrow> q < length h)"
proof -
  show "\<forall>f \<in> set (fieldRefs s). \<forall>p. f = Some p \<longrightarrow> p < length h"
    using assms by (auto simp: validRefs_def snapshotRefs_def)
  show "\<forall>p cs. cyclesRef s = Some p \<and> h ! p = SliceArray cs \<longrightarrow>
           (\<forall>q. Some q \<in> set cs \<longrightarrow> q < length h)"
  proof (intro allI impI)
    fix p cs q assume a: "cyclesRef s = Some p \<and> h ! p = SliceArray cs" "Some q \<in> set cs"
    have "cyclesRef s \<in> set (fieldRefs s)" by (simp add: fieldRefs_def)
    with assms have all: "\<forall>x \<in> snapshotRefs h (cyclesRef s). x < length h"
      by (simp add: validRefs_def)
    with a(1) have "p < length h" by (simp add: snapshotRefs_def)
    with a have "q \<in> snapshotRefs h (cyclesRef s)"
      by (simp add: snapshotRefs_def innerRefs_def fetch_def)
    with all show "q < length h" by blast
  qed
qed

lemma Cycles_frame:
  assumes v: "validRefs s h" and c: "Cycles s h = (r, h')"
  shows "take (length h) h' = h \<and> snapshotRefs h' r \<subseteq> {length h ..< length h'}"
proof (cases "\<exists>p cs. cyclesRef s = Some p \<and> fetch h p = Some (SliceArray cs)")
  case True
  then obtain p cs where pc: "cyclesRef s = Some p" "p < length h" "h ! p = SliceArray cs"
    by (auto simp: fetch_def split: if_splits)
  have inner: "\<forall>q. Some q \<in> set cs \<longrightarrow> q < length h"
    using validRefs_fields(2) [OF v] pc by blast
  from Cycles_Some [OF pc inner] c obtain xs' where
      "r = Some (length h)" "length h < length h'" "take (length h) h' = h"
      "h' ! length h = SliceArray xs'"
      "\<forall>q. Some q \<in> set xs' \<longrightarrow> length h < q \<and> q < length h'"
    by auto
  then show ?thesis
    by (auto simp: snapshotRefs_def innerRefs_def fetch_def)
next
  case False
  then have "Cycles s h = (None, h)"
    by (intro Cycles_other) (cases "cyclesRef s", auto)
  with c show ?thesis by (simp add: snapshotRefs_def)
qed

lemma Cycles_contents_prefix:
  assumes v: "validRefs s h" and k: "take (length h) k = h"
  shows "contentsOf (Cycles s k) = contentsOf (Cycles s h)"
proof (cases "\<exists>p cs. cyclesRef s = Some p \<and> fetch h p = Some (SliceArray cs)")
  case True
  then obtain p cs where pc: "cyclesRef s = Some p" "p < length h" "h ! p = SliceArray cs"
    by (auto simp: fetch_def split: if_splits)
  have inner: "\<forall>q. Some q \<in> set cs \<longrightarrow> q < length h"
    using validRefs_fields(2) [OF v] pc by blast
  have lk: "length h \<le> length k" using k by (metis length_take min.cobounded1)
  have nk: "k ! q = h ! q" if "q < length h" for q using k that by (metis nth_take)
  have pk: "p < length k" "k ! p = SliceArray cs" using pc lk nk by auto
  have innerk: "\<forall>q. Some q \<in> set cs \<longrightarrow> q < length k" using inner lk by auto
  have same: "map (readStrings k) cs = map (readStrings h) cs"
  proof (rule map_cong [OF refl])
    fix c assume "c \<in> set cs"
    with inner lk nk show "readStrings k c = readStrings h c"
      by (intro readStrings_same) auto
  qed
  from Cycles_Some [OF pc inner] obtain h' xs' where 1:
      "Cycles s h = (Some (length h), h')" "length h < length h'"
      "h' ! length h = SliceArray xs'" "map (readStrings h') xs' = map (readStrings h) cs"
    by blast
  from Cycles_Some [OF pc(1) pk innerk] obtain k' ys' where 2:
      "Cycles s k = (Some (length k), k')" "length k < length k'"
      "k' ! length k = SliceArray ys'" "map (readStrings k') ys' = map (readStrings k) cs"
    by blast
  show ?thesis
    using 1 2 same by (simp add: contentsOf_def contents_def fetch_def)
next
  case False
  have fk: "fetch k p = fetch h p" if "cyclesRef s = Some p" for p
  proof -
    have "cyclesRef s \<in> set (fieldRefs s)" by (simp add: fieldRefs_def)
    with validRefs_fields(1) [OF v] that have "p < length h" by blast
    with k show ?thesis by (intro fetch_prefix)
  qed
  from False have "Cycles s h = (None, h)"
    by (intro Cycles_other) (cases "cyclesRef s", auto)
  moreover from False fk have "Cycles s k = (None, k)"
    by (intro Cycles_other) (cases "cyclesRef s", auto)
  ultimately show ?thesis by (simp add: contentsOf_def contents_def)
qed

lemma accessor_frame:
  assumes v: "validRefs s h" and acc: "acc \<in> set accessors" and call: "acc s h = (r, h')"
  shows "take (length h) h' = h \<and> snapshotRefs h' r \<subseteq> {length h ..< length h'}"
proof -
  from acc consider "acc = Cycles" | f where "acc = (\<lambda>s. copyMap (f s))"
    unfolding accessors_def PageRank_def [abs_def] Betweenness_def [abs_def]
      Eigenvector_def [abs_def] Hubs_def [abs_def] Authorities_def [abs_def]
      CriticalPathScore_def [abs_def]
    by auto
  then show ?thesis
  proof cases
    case 1
    with call show ?thesis using Cycles_frame [OF v] by simp
  next
    case 2
    with call show ?thesis using copyMap_frame by simp
  qed
qed

lemma accessor_contents_prefix:
  assumes v: "validRefs s h" and acc: "acc \<in> set accessors" and k: "take (length h) k = h"
  shows "contentsOf (acc s k) = contentsOf (acc s h)"
proof -
  note fields = validRefs_fields(1) [OF v, unfolded fieldRefs_def, simplified]
  from acc have "acc = PageRank \<or> acc = Betweenness \<or> acc = Eigenvector \<or> acc = Hubs
      \<or> acc = Authorities \<or> acc = CriticalPathScore \<or> acc = Cycles"
    by (simp add: accessors_def)
  then show ?thesis
    using fields copyMap_contents_prefix [OF k] Cycles_contents_prefix [OF v k]
    by (auto simp: PageRank_def Betweenness_def Eigenvector_def Hubs_def Authorities_def
          CriticalPathScore_def)
qed

lemma contents_prefix:
  assumes k: "take (length h) k = h" and old: "snapshotRefs h r0 \<subseteq> {..< length h}"
  shows "contents k r0 = contents h r0"
proof (cases r0)
  case None
  then show ?thesis by (simp add: contents_def)
next
  case (Some p)
  with old have p: "p < length h" by (simp add: snapshotRefs_def)
  have fp: "fetch k p = fetch h p" by (rule fetch_prefix [OF k p])
  have lk: "length h \<le> length k" using k by (metis length_take min.cobounded1)
  have nk: "k ! q = h ! q" if "q < length h" for q using k that by (metis nth_take)
  show ?thesis
  proof (cases "h ! p")
    case (SliceArray cs)
    have "map (readStrings k) cs = map (readStrings h) cs"
    proof (rule map_cong [OF refl])
      fix c assume c: "c \<in> set cs"
      have "q < length h" if "c = Some q" for q
        using old c that p SliceArray Some
        by (auto simp: snapshotRefs_def innerRefs_def fetch_def)
      with lk nk show "readStrings k c = readStrings h c"
        by (intro readStrings_same) auto
    qed
    with fp p SliceArray show ?thesis
      by (simp add: Some contents_def fetch_def split: if_splits)
  qed (use fp p in \<open>simp_all add: Some contents_def fetch_def split: if_splits\<close>)
qed

lemma map_of_copy_distinct:
  assumes "distinct (map fst m)"
  shows "map_of (foldl (\<lambda>acc (k, v). AList.update k v acc) [] m) = map_of m"
proof -
  have "map_of (rev m) = map_of m"
    using assms by (subst map_of_inject_set) (simp_all add: rev_map [symmetric])
  then show ?thesis by (simp add: map_of_copy)
qed

lemma copyMap_copy:
  assumes t: "mapObjectAt h f" and c: "copyMap f h = (r, h')"
  shows "contents h' r = contents h f \<and> (r = None \<longleftrightarrow> f = None)"
proof (cases f)
  case None
  with c show ?thesis by (simp add: copyMap_def)
next
  case (Some p)
  with t obtain m where m: "fetch h p = Some (MapObject m)" "distinct (map fst m)"
    by (auto simp: mapObjectAt_def split: option.splits object.splits)
  from copyMap_Some [OF m(1)] c Some m show ?thesis
    by (auto simp: contents_def fetch_def map_of_copy_distinct)
qed

lemma Cycles_copy:
  assumes v: "validRefs s h" and t: "sliceArrayAt h (cyclesRef s)" and c: "Cycles s h = (r, h')"
  shows "contents h' r = contents h (cyclesRef s) \<and> (r = None \<longleftrightarrow> cyclesRef s = None)"
proof (cases "cyclesRef s")
  case None
  with c show ?thesis by (simp add: Cycles_def)
next
  case (Some p)
  with t obtain cs where pc: "p < length h" "h ! p = SliceArray cs"
    by (auto simp: sliceArrayAt_def fetch_def split: option.splits object.splits if_splits)
  have inner: "\<forall>q. Some q \<in> set cs \<longrightarrow> q < length h"
    using validRefs_fields(2) [OF v] Some pc by blast
  from Cycles_Some [OF Some pc inner] c obtain xs' where
      "r = Some (length h)" "length h < length h'"
      "h' ! length h = SliceArray xs'" "map (readStrings h') xs' = map (readStrings h) cs"
    by auto
  with Some pc show ?thesis
    by (simp add: contents_def fetch_def)
qed

lemma accessor_copy:
  assumes v: "validRefs s h" and t: "typedRefs s h"
    and acc: "(acc, field) \<in> set snapshotFields" and call: "acc s h = (r, h')"
  shows "contents h' r = contents h (field s) \<and> (r = None \<longleftrightarrow> field s = None)"
proof -
  from acc consider "acc = Cycles" "field = cyclesRef"
    | "acc = (\<lambda>s. copyMap (field s))" "mapObjectAt h (field s)"
    using t
    unfolding snapshotFields_def typedRefs_def PageRank_def [abs_def] Betweenness_def [abs_def]
      Eigenvector_def [abs_def] Hubs_def [abs_def] Authorities_def [abs_def]
      CriticalPathScore_def [abs_def]
    by auto
  then show ?thesis
  proof cases
    case 1
    with call t show ?thesis using Cycles_copy [OF v] by (simp add: typedRefs_def)
  next
    case 2
    with call show ?thesis using copyMap_copy by simp
  qed
qed

lemma snapshotFields_accessors: "map fst snapshotFields = accessors"
  by (simp add: snapshotFields_def accessors_def)

text \<open>
  C6. Let a snapshot accessor (\<^verbatim>\<open>PageRank\<close>, \<^verbatim>\<open>Betweenness\<close>, \<^verbatim>\<open>Eigenvector\<close>, \<^verbatim>\<open>Hubs\<close>,
  \<^verbatim>\<open>Authorities\<close>, \<^verbatim>\<open>CriticalPathScore\<close>, \<^verbatim>\<open>Cycles\<close>) be called on statistics whose fields
  refer to objects of the store. The returned value is a copy of the field: it reads as
  the field reads, and it is nil exactly when the field is nil. Every object of the
  returned value is allocated by the call, and the call changes no object that existed
  before. So after any writes to the objects of the returned value every object that
  existed before the call is as it was: the objects of the phase-2 fields and of every
  earlier snapshot read the same, and every accessor called afterwards returns the
  contents it would have returned before, those of its field.
\<close>

theorem snapshots_disjoint:
  assumes v: "validRefs s h"
    and t: "typedRefs s h"
    and acc: "(acc, field) \<in> set snapshotFields"
    and call: "acc s h = (r, h')"
    and mut: "mutatedThrough (snapshotRefs h' r) h' k"
  shows "contents h' r = contents h (field s)
       \<and> (r = None \<longleftrightarrow> field s = None)
       \<and> snapshotRefs h' r \<subseteq> {length h ..< length h'}
       \<and> take (length h) h' = h
       \<and> take (length h) k = h
       \<and> (\<forall>r0. snapshotRefs h r0 \<subseteq> {..< length h} \<longrightarrow> contents k r0 = contents h r0)
       \<and> (\<forall>acc' \<in> set accessors. contentsOf (acc' s k) = contentsOf (acc' s h))
       \<and> (\<forall>(acc', field') \<in> set snapshotFields. contentsOf (acc' s k) = contents h (field' s))"
proof -
  have acc': "acc \<in> set accessors"
    using acc unfolding snapshotFields_accessors [symmetric] by force
  from accessor_frame [OF v acc' call]
  have fr: "take (length h) h' = h" "snapshotRefs h' r \<subseteq> {length h ..< length h'}"
    by simp_all
  have lh: "length h \<le> length h'" using fr(1) by (metis length_take min.cobounded1)
  have k: "take (length h) k = h"
  proof (rule nth_equalityI)
    show "length (take (length h) k) = length h"
      using mut lh by (simp add: mutatedThrough_def)
  next
    fix q assume "q < length (take (length h) k)"
    then have q: "q < length h" by simp
    with fr(2) have "q \<notin> snapshotRefs h' r" by auto
    with mut q lh have "k ! q = h' ! q" by (simp add: mutatedThrough_def)
    also have "h' ! q = h ! q" using fr(1) q by (metis nth_take)
    finally show "take (length h) k ! q = h ! q" using q by simp
  qed
  have later: "contentsOf (a' s k) = contents h (f' s)" if p: "(a', f') \<in> set snapshotFields" for a' f'
  proof -
    have a': "a' \<in> set accessors"
      using p unfolding snapshotFields_accessors [symmetric] by force
    obtain r1 h1 where c1: "a' s h = (r1, h1)" by (cases "a' s h")
    from accessor_copy [OF v t p c1] have "contentsOf (a' s h) = contents h (f' s)"
      by (simp add: contentsOf_def c1)
    with accessor_contents_prefix [OF v a' k] show ?thesis by simp
  qed
  from accessor_copy [OF v t acc call] fr k contents_prefix [OF k]
    accessor_contents_prefix [OF v _ k] later
  show ?thesis by blast
qed

theorem snapshots_disjoint_witness:
  "validRefs exampleStats exampleStore
   \<and> typedRefs exampleStats exampleStore
   \<and> (Cycles, cyclesRef) \<in> set snapshotFields \<and> (PageRank, pageRankRef) \<in> set snapshotFields
   \<and> Cycles exampleStats exampleStore
       = (Some 3, exampleStore @ [SliceArray [Some 4, None], StringArray [''A'', ''B'', ''A'']])
   \<and> mutatedThrough {3, 4}
        (exampleStore @ [SliceArray [Some 4, None], StringArray [''A'', ''B'', ''A'']])
        (exampleStore @ [SliceArray [Some 4, None], StringArray [''X'', ''B'', ''A'']])
   \<and> contentsOf (Cycles exampleStats exampleStore) = (None, Some [[''A'', ''B'', ''A''], []])
   \<and> contents exampleStore (cyclesRef exampleStats) = (None, Some [[''A'', ''B'', ''A''], []])
   \<and> contentsOf (Cycles exampleStats
        (exampleStore @ [SliceArray [Some 4, None], StringArray [''X'', ''B'', ''A'']]))
       = (None, Some [[''A'', ''B'', ''A''], []])
   \<and> fst (contentsOf (PageRank exampleStats
        (exampleStore @ [SliceArray [Some 4, None], StringArray [''X'', ''B'', ''A'']])))
       = Some [''A'' \<mapsto> 1 / 2, ''B'' \<mapsto> 1 / 2]"
proof -
  let ?h' = "exampleStore @ [SliceArray [Some 4, None], StringArray [''A'', ''B'', ''A'']]"
  let ?k = "exampleStore @ [SliceArray [Some 4, None], StringArray [''X'', ''B'', ''A'']]"
  have h1: "validRefs exampleStats exampleStore"
    by (simp add: validRefs_def fieldRefs_def snapshotRefs_def innerRefs_def fetch_def
          exampleStats_def exampleStore_def)
  have h1': "typedRefs exampleStats exampleStore"
    by (simp add: typedRefs_def mapObjectAt_def sliceArrayAt_def fetch_def exampleStats_def
          exampleStore_def)
  have h2: "(Cycles, cyclesRef) \<in> set snapshotFields"
    and h2': "(PageRank, pageRankRef) \<in> set snapshotFields"
    by (simp_all add: snapshotFields_def)
  have h3: "Cycles exampleStats exampleStore = (Some 3, ?h')"
    by (simp add: Cycles_def fetch_def alloc_def appendToNil_def readStrings_def setElem_def
          exampleStats_def exampleStore_def Let_def)
  have refs: "snapshotRefs ?h' (Some 3) = {3, 4}"
    by (auto simp: snapshotRefs_def innerRefs_def fetch_def exampleStore_def)
  have h4: "mutatedThrough (snapshotRefs ?h' (Some 3)) ?h' ?k"
    unfolding refs by (auto simp: mutatedThrough_def exampleStore_def nth_Cons' nth_append)
  have ev: "contentsOf (Cycles exampleStats exampleStore) = (None, Some [[''A'', ''B'', ''A''], []])"
    "contents exampleStore (cyclesRef exampleStats) = (None, Some [[''A'', ''B'', ''A''], []])"
    "contentsOf (Cycles exampleStats ?k) = (None, Some [[''A'', ''B'', ''A''], []])"
    "fst (contentsOf (PageRank exampleStats ?k)) = Some [''A'' \<mapsto> 1 / 2, ''B'' \<mapsto> 1 / 2]"
    by (simp_all add: Cycles_def PageRank_def copyMap_def fetch_def alloc_def appendToNil_def
          readStrings_def setElem_def contentsOf_def contents_def exampleStats_def
          exampleStore_def Let_def fun_eq_iff)
  show ?thesis
    using snapshots_disjoint [OF h1 h1' h2 h3 h4] h1 h1' h2 h2' h3 h4 [unfolded refs] ev
    by simp
qed

subsection \<open>Inputs on which the code panics\<close>

text \<open>
  C1, at a failing input. An open issue whose dependency list holds a nil entry:
  \<^verbatim>\<open>NewAnalyzer\<close> skips the entry and succeeds, then \<^verbatim>\<open>GetActionableIssues\<close> reads
  \<^verbatim>\<open>dep.Type\<close> through the nil pointer and panics instead of returning the issue.
\<close>

theorem GetActionableIssues_nil_dependency:
  "map_sum id (\<lambda>a. GetActionableIssues a [''A'']) (NewAnalyzer nilDependencyExample)
     = Inr (Inl NilPointerDereference)"
  by (simp add: eval_defs nilDependencyExample_def GetActionableIssues_def)

text \<open>Without a nil entry in any dependency list the call returns, and what it returns
  is the set of the actionable issues.\<close>

lemma isBlockedLoop_without_nil:
  "None \<notin> set deps \<Longrightarrow> isBlockedLoop m deps = Inr (list_ex (blockedBy m) deps)"
proof (induction deps)
  case Nil
  show ?case by simp
next
  case (Cons entry deps)
  then obtain d where "entry = Some d" by (cases entry) auto
  with Cons show ?case
    by (auto simp: blockedBy_def isOpenIn_def split: option.splits)
qed

lemma actionableLoop_without_nil:
  assumes "\<forall>k issue. m k = Some issue \<longrightarrow> None \<notin> set (Dependencies issue)"
  shows "actionableLoop m ks acc
     = Inr (acc @ map (\<lambda>k. the (m k))
                    (filter (\<lambda>k. case m k of None \<Rightarrow> False | Some i \<Rightarrow> actionable m i) ks))"
proof (induction ks arbitrary: acc)
  case Nil
  show ?case by simp
next
  case (Cons k ks)
  show ?case
  proof (cases "m k")
    case None
    with Cons show ?thesis by simp
  next
    case (Some issue)
    with assms have "isBlockedLoop m (Dependencies issue)
        = Inr (list_ex (blockedBy m) (Dependencies issue))"
      by (intro isBlockedLoop_without_nil) blast
    with Some Cons show ?thesis by (simp add: actionable_def)
  qed
qed

lemma GetActionableIssues_without_nil:
  assumes a: "NewAnalyzer issues = Inr a"
    and d: "distinct (map ID issues)"
    and nonil: "\<forall>i \<in> set issues. None \<notin> set (Dependencies i)"
    and ks: "set ks = ID ` set issues"
  shows "\<exists>res. GetActionableIssues a ks = Inr res
       \<and> set res = {i \<in> set issues. actionable (map_of (issueMap a)) i}"
proof -
  let ?m = "map_of (issueMap a)"
  have im: "issueMap a = map (\<lambda>i. (ID i, i)) issues"
    using NewAnalyzer_issueMap [OF a] addNodes_issueMap_distinct [OF d] by simp
  have look: "?m (ID i) = Some i" if "i \<in> set issues" for i
  proof -
    have "map_of (map (\<lambda>i. (ID i, i)) issues) (ID i) = Some i"
      using d that by (intro map_of_is_SomeI) (auto simp: comp_def)
    then show ?thesis by (simp add: im)
  qed
  have mem: "i \<in> set issues" if "?m k = Some i" for k i
    using map_of_SomeD [OF that [unfolded im]] by auto
  have "\<forall>k issue. ?m k = Some issue \<longrightarrow> None \<notin> set (Dependencies issue)"
    using mem nonil by blast
  then have res: "GetActionableIssues a ks
      = Inr (map (\<lambda>k. the (?m k))
               (filter (\<lambda>k. case ?m k of None \<Rightarrow> False | Some i \<Rightarrow> actionable ?m i) ks))"
    by (simp add: GetActionableIssues_def actionableLoop_without_nil)
  have "set (map (\<lambda>k. the (?m k))
               (filter (\<lambda>k. case ?m k of None \<Rightarrow> False | Some i \<Rightarrow> actionable ?m i) ks))
      = {i \<in> set issues. actionable ?m i}"
    using ks look by (auto simp: image_iff split: option.splits) force
  with res show ?thesis by simp
qed

text \<open>
  C2, at a failing input. A depends on B and B has a blocking dependency on itself:
  \<^verbatim>\<open>NewAnalyzer\<close> passes the edge from B to B to \<^verbatim>\<open>SetEdge\<close>, which panics, so no graph
  is built and the edge from A to B is not in any graph.
\<close>

theorem NewAnalyzer_self_dependency_beside_edge:
  "NewAnalyzer selfBlockedExample = Inl SelfEdgePanic"
  by (simp add: eval_defs selfBlockedExample_def)

text \<open>For distinct ids \<^verbatim>\<open>NewAnalyzer\<close> panics exactly when an issue has a blocking
  dependency on its own id; otherwise the graph has the edge from \<open>u\<close> to \<open>v\<close> exactly
  when \<open>u\<close> has a blocking entry on \<open>v\<close> (\<open>NewAnalyzer_edge_iff\<close>) and the degrees count
  those entries (\<open>degrees_count_blocking_edges\<close>).\<close>

lemma depEdges_blocksOn:
  assumes d: "distinct (map ID issues)" and i: "i < length issues" and j: "j < length issues"
  shows "(i, j) \<in> depEdges (idToNode (addNodes issues emptyAnalyzer)) issues
         \<longleftrightarrow> blocksOn (issues ! i) (issues ! j)"
proof -
  let ?ids = "idToNode (addNodes issues emptyAnalyzer)"
  have "(i, j) \<in> depEdges ?ids issues \<longleftrightarrow> j \<in> depTargets ?ids (Dependencies (issues ! i))"
  proof
    assume "(i, j) \<in> depEdges ?ids issues"
    then obtain x where x: "x \<in> set issues" "?ids (ID x) = Some i"
        "j \<in> depTargets ?ids (Dependencies x)"
      by (auto simp: depEdges_def)
    from addNodes_idToNode_range [OF x(2)] issue_of_ID [OF d x(1) i] have "issues ! i = x"
      by simp
    with x(3) show "j \<in> depTargets ?ids (Dependencies (issues ! i))" by simp
  next
    assume "j \<in> depTargets ?ids (Dependencies (issues ! i))"
    with addNodes_idToNode [OF d i] i show "(i, j) \<in> depEdges ?ids issues"
      by (auto simp: depEdges_def intro!: bexI [of _ "issues ! i"])
  qed
  with depTargets_blocksOn [OF d j] show ?thesis by simp
qed

lemma NewAnalyzer_panics_iff:
  assumes d: "distinct (map ID issues)"
  shows "((\<exists>u \<in> set issues. blocksOn u u) \<longrightarrow> NewAnalyzer issues = Inl SelfEdgePanic)
       \<and> ((\<forall>u \<in> set issues. \<not> blocksOn u u) \<longrightarrow> (\<exists>a. NewAnalyzer issues = Inr a))"
proof -
  let ?ids = "idToNode (addNodes issues emptyAnalyzer)"
  have "(\<exists>n. (n, n) \<in> depEdges ?ids issues) \<longleftrightarrow> (\<exists>u \<in> set issues. blocksOn u u)"
  proof
    assume "\<exists>n. (n, n) \<in> depEdges ?ids issues"
    then obtain n where n: "(n, n) \<in> depEdges ?ids issues" by blast
    from depEdges_bound [OF n] have "n < length issues" by simp
    with depEdges_blocksOn [OF d this this] n show "\<exists>u \<in> set issues. blocksOn u u"
      by (auto intro!: bexI [of _ "issues ! n"])
  next
    assume "\<exists>u \<in> set issues. blocksOn u u"
    then obtain n where "n < length issues" "blocksOn (issues ! n) (issues ! n)"
      by (auto simp: in_set_conv_nth)
    with depEdges_blocksOn [OF d this(1) this(1)] show "\<exists>n. (n, n) \<in> depEdges ?ids issues"
      by blast
  qed
  with NewAnalyzer_result [of issues] show ?thesis by auto
qed

text \<open>
  C9, at a failing input. For the single issue that blocks itself \<^verbatim>\<open>NewAnalyzer\<close> panics
  in \<^verbatim>\<open>SetEdge\<close>. Were the self-loop stored, phase 2 would still publish no cycle: the
  only component has one node, and the pre-check asks for a component of more than one.
\<close>

theorem NewAnalyzer_self_loop:
  "NewAnalyzer selfLoopExample = Inl SelfEdgePanic
   \<and> map_sum id cycles
        (AnalyzeWithConfig selfLoopAnalyzer (fullConfig 0) (timedOutLibrary [[0]] (Done [[0, 0]])))
       = Inr []"
  by (simp add: run_defs eval_defs selfLoopExample_def selfLoopAnalyzer_def)

subsection \<open>Blockers\<close>

lemma openBlockersLoop_filter:
  "openBlockersLoop m deps (filter (isOpenIn m) acc) =
     map_sum id (filter (isOpenIn m)) (blockersLoop m deps acc)"
proof (induction deps arbitrary: acc)
  case Nil
  show ?case by simp
next
  case (Cons d deps)
  show ?case
  proof (cases d)
    case None
    then show ?thesis by simp
  next
    case (Some entry)
    show ?thesis
      unfolding Some blockersLoop.simps openBlockersLoop.simps
      by (subst Cons.IH [symmetric]) (auto simp: isOpenIn_def split: option.splits)
  qed
qed

text \<open>
  In the sum type the two functions are related by one equation: \<^verbatim>\<open>GetOpenBlockers\<close>
  returns the list \<^verbatim>\<open>GetBlockers\<close> returns with the entries of closed blockers removed,
  in the same order, and panics where \<^verbatim>\<open>GetBlockers\<close> panics; for an id that is not in
  the issue map both return nil.
\<close>

lemma GetOpenBlockers_filter_eq:
  "GetOpenBlockers a issueID =
     (case GetBlockers a issueID of
        Inl e \<Rightarrow> Inl e
      | Inr blockers \<Rightarrow> Inr (filter (isOpenIn (map_of (issueMap a))) blockers))
   \<and> (map_of (issueMap a) issueID = None \<longrightarrow>
        GetBlockers a issueID = Inr [] \<and> GetOpenBlockers a issueID = Inr [])"
proof -
  have "openBlockersLoop m deps [] = map_sum id (filter (isOpenIn m)) (blockersLoop m deps [])"
    for m deps
    using openBlockersLoop_filter [of m deps "[]"] by simp
  then show ?thesis
    by (auto simp: GetOpenBlockers_def GetBlockers_def split: option.splits sum.splits)
qed

lemma blockersLoop_without_nil:
  "None \<notin> set deps \<Longrightarrow> \<exists>blockers. blockersLoop m deps acc = Inr blockers"
proof (induction deps arbitrary: acc)
  case Nil
  show ?case by simp
next
  case (Cons entry deps)
  then obtain d where "entry = Some d" by (cases entry) auto
  with Cons show ?case by simp
qed

text \<open>For an issue without a nil entry in its dependency list both calls return, and
  \<^verbatim>\<open>GetOpenBlockers\<close> returns the open blockers of \<^verbatim>\<open>GetBlockers\<close>' list in its order.\<close>

lemma GetOpenBlockers_without_nil:
  assumes "\<forall>issue. map_of (issueMap a) issueID = Some issue \<longrightarrow> None \<notin> set (Dependencies issue)"
  shows "\<exists>blockers. GetBlockers a issueID = Inr blockers
       \<and> GetOpenBlockers a issueID = Inr (filter (isOpenIn (map_of (issueMap a))) blockers)"
proof -
  have "\<exists>blockers. GetBlockers a issueID = Inr blockers"
    using assms blockersLoop_without_nil [of _ "map_of (issueMap a)" "[]"]
    by (auto simp: GetBlockers_def split: option.splits)
  then obtain blockers where "GetBlockers a issueID = Inr blockers" by blast
  with GetOpenBlockers_filter_eq [of a issueID] show ?thesis by simp
qed

lemma blockersExample_blockers:
  "(case NewAnalyzer blockersExample of
      Inl e \<Rightarrow> False
    | Inr a \<Rightarrow>
        GetBlockers a ''A'' = Inr [''B'', ''C''] \<and> GetOpenBlockers a ''A'' = Inr [''B'']
        \<and> GetBlockers a ''Z'' = Inr [] \<and> GetOpenBlockers a ''Z'' = Inr [])"
  by (simp add: eval_defs blockersExample_def GetBlockers_def GetOpenBlockers_def isOpenIn_def)

text \<open>
  C10, at a failing input. For an issue whose dependency list holds a nil entry (the
  input of C1) \<^verbatim>\<open>NewAnalyzer\<close> succeeds, and \<^verbatim>\<open>GetBlockers\<close> and \<^verbatim>\<open>GetOpenBlockers\<close> both
  read \<^verbatim>\<open>dep.Type\<close> through the nil pointer and panic: neither returns a list, where the
  issue has no blocker and both lists are empty.
\<close>

theorem GetOpenBlockers_nil_dependency:
  "map_sum id (\<lambda>a. (GetBlockers a ''A'', GetOpenBlockers a ''A''))
      (NewAnalyzer nilDependencyExample)
     = Inr (Inl NilPointerDereference, Inl NilPointerDereference)"
  by (simp add: eval_defs nilDependencyExample_def GetBlockers_def GetOpenBlockers_def)

end
